theory Spec2Isabelle
  imports Main "HOL-Library.Word" "HOL-Library.Signed_Division"
begin

unbundle bit_operations_syntax

section \<open>Machine types\<close>

text \<open>
  Go's \<open>int64\<close> and \<open>uint64\<close> are 64-bit words: arithmetic wraps, \<open><s\<close> and \<open>\<le>s\<close> are the signed
  comparisons of \<open>int64\<close>, \<open><\<close> and \<open>\<le>\<close> the unsigned ones of \<open>uint64\<close> and \<open>uint8\<close>.
  \<open>x << s\<close> is \<open>push_bit\<close>, \<open>>>\<close> on an \<open>int64\<close> is the arithmetic shift \<open>signed_drop_bit\<close>, on an
  unsigned value the logical shift \<open>drop_bit\<close>. Go's \<open>int\<close> is taken as 64 bits wide.
  A Go \<open>string\<close> or \<open>[]byte\<close> holding text is a \<open>string\<close> (a list of 8-bit characters).
\<close>

type_synonym int64 = "64 word"
type_synonym uint64 = "64 word"
type_synonym uint8 = "8 word"
type_synonym byte = "8 word"

text \<open>Go's \<open>/\<close> and \<open>%\<close> on \<open>int64\<close> truncate towards zero.\<close>

definition go_div :: "int64 \<Rightarrow> int64 \<Rightarrow> int64" where
  "go_div a b = word_of_int (sint a sdiv sint b)"

definition go_rem :: "int64 \<Rightarrow> int64 \<Rightarrow> int64" where
  "go_rem a b = word_of_int (sint a smod sint b)"

section \<open>Errors\<close>

text \<open>
  One constructor for each error the source creates (\<open>errors.New\<close>, \<open>fmt.Errorf\<close>) or receives
  from the standard library (\<open>base64.CorruptInputError\<close> with its offset, \<open>strconv.ErrSyntax\<close>,
  \<open>strconv.ErrRange\<close>, and \<open>strconv\<close>'s invalid base).
\<close>

datatype error =
    NodeBitsTooLarge
  | StepBitsTooLarge
  | BitsSumTooLarge
  | NodeOutOfRange int64
  | CountNotPositive
  | CountTooLarge int64
  | InvalidBase32Character
  | InvalidBase58Character
  | CorruptInputError nat
  | ErrSyntax
  | ErrRange
  | ErrBase

text \<open>The error kinds of the specification.\<close>

datatype error_kind = ConfigError | ArgumentError | InvalidCharacter | MalformedEncoding | ParseError

fun kind_of :: "error \<Rightarrow> error_kind" where
  "kind_of NodeBitsTooLarge = ConfigError"
| "kind_of StepBitsTooLarge = ConfigError"
| "kind_of BitsSumTooLarge = ConfigError"
| "kind_of (NodeOutOfRange m) = ConfigError"
| "kind_of CountNotPositive = ArgumentError"
| "kind_of (CountTooLarge m) = ArgumentError"
| "kind_of InvalidBase32Character = InvalidCharacter"
| "kind_of InvalidBase58Character = InvalidCharacter"
| "kind_of (CorruptInputError k) = MalformedEncoding"
| "kind_of ErrSyntax = ParseError"
| "kind_of ErrRange = ParseError"
| "kind_of ErrBase = ParseError"

section \<open>Constants and encoding tables\<close>

definition DefaultEpoch :: int64 where "DefaultEpoch = 1731430800000"
definition DefaultNodeBits :: uint8 where "DefaultNodeBits = 10"
definition DefaultStepBits :: uint8 where "DefaultStepBits = 12"
definition MaxNodeBits :: uint8 where "MaxNodeBits = 16"
definition MaxStepBits :: uint8 where "MaxStepBits = 16"

definition encodeBase32Map :: string where
  "encodeBase32Map = ''7w3x5h9k2m4p6q8r1sdyfgjtnvzbcaeu''"

definition encodeBase58Map :: string where
  "encodeBase58Map = ''123456789abcdefghijkmnopqrstuvwxyzABCDEFGHJKLMNPQRSTUVWXYZ''"

definition encodeBase64Map :: string where
  "encodeBase64Map = ''ABCDEFGHIJKLMNOPQRSTUVWXYZabcdefghijklmnopqrstuvwxyz0123456789-_''"

text \<open>
  \<open>initDecodeMap\<close>: a \<open>[256]byte\<close> indexed by a byte is a total function on characters. Every
  entry is set to \<open>0xFF\<close>, then entry \<open>encodeMap[i]\<close> is set to \<open>byte(i)\<close>, for \<open>i\<close> from 0 upwards.
\<close>

definition initDecodeMap :: "string \<Rightarrow> char \<Rightarrow> byte" where
  "initDecodeMap encodeMap =
     fold (\<lambda>i decodeMap. decodeMap(encodeMap ! i := of_nat i)) [0..<length encodeMap] (\<lambda>_. 0xFF)"

definition decodeBase32Map :: "char \<Rightarrow> byte" where
  "decodeBase32Map = initDecodeMap encodeBase32Map"

definition decodeBase58Map :: "char \<Rightarrow> byte" where
  "decodeBase58Map = initDecodeMap encodeBase58Map"

definition decodeBase64Map :: "char \<Rightarrow> byte" where
  "decodeBase64Map = initDecodeMap encodeBase64Map"

section \<open>Configuration and generator\<close>

record Config =
  Epoch :: int64
  NodeBits :: uint8
  StepBits :: uint8
  Node :: int64

text \<open>
  The generator. The mutex is not modelled: every operation below is one critical section.
  The field \<open>epoch\<close> (a \<open>time.Time\<close>) is read only by \<open>time.Since(n.epoch)\<close> and
  \<open>n.epoch.UnixNano()\<close>; the clock is outside the program, so the successive values of
  \<open>time.Since(n.epoch).Nanoseconds() / 1000000\<close> are given to the operations as a list of clock
  samples, and the value of \<open>n.epoch.UnixNano()/1000000\<close> as an argument.
\<close>

record Node =
  time :: int64
  node :: int64
  step :: int64
  nodeMax :: int64
  nodeMask :: int64
  stepMask :: int64
  timeShift :: uint8
  nodeShift :: uint8

type_synonym ID = int64

definition NewConfig :: Config where
  "NewConfig = \<lparr>Epoch = DefaultEpoch, NodeBits = DefaultNodeBits, StepBits = DefaultStepBits, Node = 0\<rparr>"

definition NewNodeWithConfig :: "Config \<Rightarrow> error + Node" where
  "NewNodeWithConfig cfg =
     (if NodeBits cfg > MaxNodeBits then Inl NodeBitsTooLarge
      else if StepBits cfg > MaxStepBits then Inl StepBitsTooLarge
      else if NodeBits cfg + StepBits cfg > 22 then Inl BitsSumTooLarge
      else
        let nodeMax' = (- 1) XOR push_bit (unat (NodeBits cfg)) (- 1) :: int64 in
        if Node cfg <s 0 \<or> nodeMax' <s Node cfg then Inl (NodeOutOfRange nodeMax')
        else Inr \<lparr>time = 0, node = Node cfg, step = 0,
                  nodeMax = nodeMax',
                  nodeMask = push_bit (unat (StepBits cfg)) nodeMax',
                  stepMask = (- 1) XOR push_bit (unat (StepBits cfg)) (- 1),
                  timeShift = NodeBits cfg + StepBits cfg,
                  nodeShift = StepBits cfg\<rparr>)"

definition NewNode :: "int64 \<Rightarrow> error + Node" where
  "NewNode nd = NewNodeWithConfig
     \<lparr>Epoch = DefaultEpoch, NodeBits = DefaultNodeBits, StepBits = DefaultStepBits, Node = nd\<rparr>"

text \<open>
  The busy-wait loop \<open>for now <= n.time { now = time.Since(n.epoch).Nanoseconds() / 1000000 }\<close>:
  every turn takes the next clock sample. It ends with the first sample after \<open>n.time\<close>; when
  the samples run out before that, the loop has not ended and the result is \<open>None\<close>.
\<close>

fun wait_clock :: "int64 \<Rightarrow> int64 \<Rightarrow> int64 list \<Rightarrow> (int64 \<times> int64 list) option" where
  "wait_clock now t [] = (if now \<le>s t then None else Some (now, []))"
| "wait_clock now t (s # clock) = (if now \<le>s t then wait_clock s t clock else Some (now, s # clock))"

text \<open>
  \<open>Generate\<close> takes the generator and the clock samples still to come, and returns the
  identifier, the generator after the call and the samples left; \<open>None\<close> when it never returns.
\<close>

definition Generate :: "Node \<Rightarrow> int64 list \<Rightarrow> (ID \<times> Node \<times> int64 list) option" where
  "Generate n clock =
     (case clock of
        [] \<Rightarrow> None
      | now # rest \<Rightarrow>
          if now = time n then
            let n1 = n\<lparr>step := (step n + 1) AND stepMask n\<rparr> in
            if step n1 = 0 then
              (case wait_clock now (time n1) rest of
                 None \<Rightarrow> None
               | Some (now', rest') \<Rightarrow>
                   Some (push_bit (unat (timeShift n1)) now'
                           OR push_bit (unat (nodeShift n1)) (node n1) OR step n1,
                         n1\<lparr>time := now'\<rparr>, rest'))
            else
              Some (push_bit (unat (timeShift n1)) now
                      OR push_bit (unat (nodeShift n1)) (node n1) OR step n1,
                    n1\<lparr>time := now\<rparr>, rest)
          else
            let n1 = n\<lparr>step := 0\<rparr> in
            Some (push_bit (unat (timeShift n1)) now
                    OR push_bit (unat (nodeShift n1)) (node n1) OR step n1,
                  n1\<lparr>time := now\<rparr>, rest))"

text \<open>The loop \<open>for i := 0; i < count; i++ { ids[i] = ...; n.step++ }\<close>, by the turns left.\<close>

fun batch_loop :: "nat \<Rightarrow> int64 \<Rightarrow> Node \<Rightarrow> ID list \<times> Node" where
  "batch_loop 0 now n = ([], n)"
| "batch_loop (Suc k) now n =
     (let i = push_bit (unat (timeShift n)) now OR push_bit (unat (nodeShift n)) (node n) OR step n;
          (ids, n') = batch_loop k now (n\<lparr>step := step n + 1\<rparr>)
      in (i # ids, n'))"

definition GenerateBatch ::
  "Node \<Rightarrow> int64 \<Rightarrow> int64 list \<Rightarrow> ((error + ID list) \<times> Node \<times> int64 list) option" where
  "GenerateBatch n count clock =
     (if count \<le>s 0 then Some (Inl CountNotPositive, n, clock)
      else if stepMask n <s count then Some (Inl (CountTooLarge (stepMask n)), n, clock)
      else
        case clock of
          [] \<Rightarrow> None
        | now # rest \<Rightarrow>
            if now = time n then
              if stepMask n <s step n + count then
                (case wait_clock now (time n) rest of
                   None \<Rightarrow> None
                 | Some (now', rest') \<Rightarrow>
                     let (ids, n') = batch_loop (nat (sint count)) now' (n\<lparr>step := 0, time := now'\<rparr>)
                     in Some (Inr ids, n', rest'))
              else
                let (ids, n') = batch_loop (nat (sint count)) now (n\<lparr>time := now\<rparr>)
                in Some (Inr ids, n', rest)
            else
              let (ids, n') = batch_loop (nat (sint count)) now (n\<lparr>step := 0, time := now\<rparr>)
              in Some (Inr ids, n', rest))"

section \<open>Component extraction\<close>

text \<open>\<open>epochMs\<close> is the value of \<open>node.epoch.UnixNano()/1000000\<close>.\<close>

definition Time :: "ID \<Rightarrow> Node \<Rightarrow> int64 \<Rightarrow> int64" where
  "Time f n epochMs = signed_drop_bit (unat (timeShift n)) f + epochMs"

text \<open>In Go \<open>&\<close> and \<open>>>\<close> have the same precedence and associate to the left.\<close>

definition NodeID :: "ID \<Rightarrow> Node \<Rightarrow> int64" where
  "NodeID f n = signed_drop_bit (unat (nodeShift n)) (f AND nodeMask n)"

definition Step :: "ID \<Rightarrow> Node \<Rightarrow> int64" where
  "Step f n = f AND stepMask n"

section \<open>Encodings\<close>

definition Int64 :: "ID \<Rightarrow> int64" where
  "Int64 f = f"

subsection \<open>Base32 and Base58\<close>

text \<open>
  The loop \<open>for f > 0 { b = append(b, encodeBase32Map[f%32]); f /= 32 }\<close>. The index
  \<open>f%32\<close> is never negative inside the loop.
\<close>

function base32_loop :: "ID \<Rightarrow> string \<Rightarrow> string" where
  "base32_loop f b =
     (if 0 <s f then base32_loop (go_div f 32) (b @ [encodeBase32Map ! nat (sint (go_rem f 32))])
      else b)"
  by pat_completeness auto
termination
proof (relation "measure (\<lambda>(f, b). nat (sint f))")
  show "wf (measure (\<lambda>(f, b). nat (sint f)))" by simp
next
  fix f :: ID and b :: string
  assume "0 <s f"
  then have f: "0 < sint f" by (simp add: word_sless_alt)
  have "sint f sdiv 32 = sint f div 32"
    using f by (simp add: signed_divide_int_def sgn_if)
  moreover have "0 \<le> sint f div 32" "sint f div 32 < sint f" using f by simp_all
  moreover have "sint f < 2 ^ 63" using sint_lt [of f] by simp
  ultimately have "sint (go_div f 32) = sint f div 32"
    by (simp add: go_div_def sint_sbintrunc' signed_take_bit_int_eq_self)
  then show "((go_div f 32, b @ [encodeBase32Map ! nat (sint (go_rem f 32))]), (f, b))
      \<in> measure (\<lambda>(f, b). nat (sint f))"
    using f by simp
qed

text \<open>The second loop of \<open>Base32\<close> reverses the slice in place.\<close>

definition Base32 :: "ID \<Rightarrow> string" where
  "Base32 f = (if f = 0 then [encodeBase32Map ! 0] else rev (base32_loop f []))"

function base58_loop :: "ID \<Rightarrow> string \<Rightarrow> string" where
  "base58_loop f b =
     (if 0 <s f then base58_loop (go_div f 58) (b @ [encodeBase58Map ! nat (sint (go_rem f 58))])
      else b)"
  by pat_completeness auto
termination
proof (relation "measure (\<lambda>(f, b). nat (sint f))")
  show "wf (measure (\<lambda>(f, b). nat (sint f)))" by simp
next
  fix f :: ID and b :: string
  assume "0 <s f"
  then have f: "0 < sint f" by (simp add: word_sless_alt)
  have "sint f sdiv 58 = sint f div 58"
    using f by (simp add: signed_divide_int_def sgn_if)
  moreover have "0 \<le> sint f div 58" "sint f div 58 < sint f" using f by simp_all
  moreover have "sint f < 2 ^ 63" using sint_lt [of f] by simp
  ultimately have "sint (go_div f 58) = sint f div 58"
    by (simp add: go_div_def sint_sbintrunc' signed_take_bit_int_eq_self)
  then show "((go_div f 58, b @ [encodeBase58Map ! nat (sint (go_rem f 58))]), (f, b))
      \<in> measure (\<lambda>(f, b). nat (sint f))"
    using f by simp
qed

definition Base58 :: "ID \<Rightarrow> string" where
  "Base58 f = (if f = 0 then [encodeBase58Map ! 0] else rev (base58_loop f []))"

text \<open>
  The parsers return Go's pair \<open>(ID, error)\<close>; \<open>None\<close> is the \<open>nil\<close> error. The loop
  \<open>for _, c := range b\<close> carries \<open>id\<close>.
\<close>

fun ParseBase32_loop :: "string \<Rightarrow> int64 \<Rightarrow> ID \<times> error option" where
  "ParseBase32_loop [] i = (i, None)"
| "ParseBase32_loop (c # b) i =
     (if decodeBase32Map c = 0xFF then (0, Some InvalidBase32Character)
      else ParseBase32_loop b (i * 32 + ucast (decodeBase32Map c)))"

definition ParseBase32 :: "string \<Rightarrow> ID \<times> error option" where
  "ParseBase32 b = ParseBase32_loop b 0"

fun ParseBase58_loop :: "string \<Rightarrow> int64 \<Rightarrow> ID \<times> error option" where
  "ParseBase58_loop [] i = (i, None)"
| "ParseBase58_loop (c # b) i =
     (if decodeBase58Map c = 0xFF then (0, Some InvalidBase58Character)
      else ParseBase58_loop b (i * 58 + ucast (decodeBase58Map c)))"

definition ParseBase58 :: "string \<Rightarrow> ID \<times> error option" where
  "ParseBase58 b = ParseBase58_loop b 0"

subsection \<open>Base64 and Bytes\<close>

text \<open>
  The standard library's \<open>binary.BigEndian.PutUint64\<close> on a slice of 8 bytes: the most
  significant byte first. \<open>byte(v >> k)\<close> keeps the low 8 bits.
\<close>

definition PutUint64 :: "uint64 \<Rightarrow> byte list" where
  "PutUint64 v =
     [ucast (drop_bit 56 v), ucast (drop_bit 48 v), ucast (drop_bit 40 v), ucast (drop_bit 32 v),
      ucast (drop_bit 24 v), ucast (drop_bit 16 v), ucast (drop_bit 8 v), ucast v]"

text \<open>
  The standard library's \<open>base64.RawURLEncoding\<close>: the URL-safe alphabet, no padding, not
  strict. \<open>EncodeToString\<close> turns every 3 bytes into 4 characters, and a rest of 1 or 2 bytes
  into 2 or 3 characters.
\<close>

definition encodeURL :: string where
  "encodeURL = ''ABCDEFGHIJKLMNOPQRSTUVWXYZabcdefghijklmnopqrstuvwxyz0123456789-_''"

definition decodeURL :: "char \<Rightarrow> byte" where
  "decodeURL = initDecodeMap encodeURL"

fun EncodeToString :: "byte list \<Rightarrow> string" where
  "EncodeToString (s0 # s1 # s2 # src) =
     (let val = push_bit 16 (ucast s0) OR push_bit 8 (ucast s1) OR ucast s2 :: uint64 in
      encodeURL ! unat (drop_bit 18 val AND 0x3F) #
      encodeURL ! unat (drop_bit 12 val AND 0x3F) #
      encodeURL ! unat (drop_bit 6 val AND 0x3F) #
      encodeURL ! unat (val AND 0x3F) # EncodeToString src)"
| "EncodeToString [s0, s1] =
     (let val = push_bit 16 (ucast s0) OR push_bit 8 (ucast s1) :: uint64 in
      [encodeURL ! unat (drop_bit 18 val AND 0x3F),
       encodeURL ! unat (drop_bit 12 val AND 0x3F),
       encodeURL ! unat (drop_bit 6 val AND 0x3F)])"
| "EncodeToString [s0] =
     (let val = push_bit 16 (ucast s0) :: uint64 in
      [encodeURL ! unat (drop_bit 18 val AND 0x3F),
       encodeURL ! unat (drop_bit 12 val AND 0x3F)])"
| "EncodeToString [] = []"

text \<open>
  \<open>DecodeString\<close>, after the library's \<open>decodeQuantum\<close>: \<open>dbuf\<close> holds the 6-bit values of the
  quantum being read, \<open>si\<close> is the index of the next input byte and \<open>dst\<close> the bytes decoded so
  far. Line feeds and carriage returns are skipped, any other byte outside the alphabet is a
  \<open>CorruptInputError\<close> at its index, and so is an input that ends one character into a quantum.
  A full quantum gives 3 bytes, a last one of 2 or 3 characters gives 1 or 2 bytes. The bytes
  the library returns beside an error are left out.
\<close>

definition quantum :: "byte list \<Rightarrow> byte list" where
  "quantum dbuf =
     (let d = dbuf @ replicate (4 - length dbuf) 0;
          val = push_bit 18 (ucast (d ! 0)) OR push_bit 12 (ucast (d ! 1))
                  OR push_bit 6 (ucast (d ! 2)) OR ucast (d ! 3) :: uint64
      in take (length dbuf - 1) [ucast (drop_bit 16 val), ucast (drop_bit 8 val), ucast val])"

fun decode_loop :: "string \<Rightarrow> nat \<Rightarrow> byte list \<Rightarrow> byte list \<Rightarrow> error + byte list" where
  "decode_loop [] si dbuf dst =
     (if dbuf = [] then Inr dst
      else if length dbuf = 1 then Inl (CorruptInputError (si - 1))
      else Inr (dst @ quantum dbuf))"
| "decode_loop (c # src) si dbuf dst =
     (let out = decodeURL c in
      if out \<noteq> 0xFF then
        (if length dbuf = 3 then decode_loop src (si + 1) [] (dst @ quantum (dbuf @ [out]))
         else decode_loop src (si + 1) (dbuf @ [out]) dst)
      else if c = CHR 0x0A \<or> c = CHR 0x0D then decode_loop src (si + 1) dbuf dst
      else Inl (CorruptInputError si))"

definition DecodeString :: "string \<Rightarrow> error + byte list" where
  "DecodeString s = decode_loop s 0 [] []"

text \<open>\<open>Base64\<close>: the loop \<open>for ; i < len(data) && data[i] == 0; i++\<close> skips the leading zero bytes.\<close>

definition Base64 :: "ID \<Rightarrow> string" where
  "Base64 f = EncodeToString (dropWhile (\<lambda>b. b = 0) (PutUint64 f))"

definition Bytes :: "ID \<Rightarrow> byte list" where
  "Bytes f = PutUint64 f"

definition ParseBase64 :: "string \<Rightarrow> ID \<times> error option" where
  "ParseBase64 b =
     (case DecodeString b of
        Inl err \<Rightarrow> (0, Some err)
      | Inr data \<Rightarrow> (fold (\<lambda>b i. push_bit 8 i OR ucast b) data (0 :: uint64), None))"

subsection \<open>Decimal, binary and JSON\<close>

text \<open>
  The standard library's \<open>strconv.FormatInt\<close>, for a base from 2 to 36 (another base panics):
  the digits of the magnitude by repeated division, the most significant first, after a
  minus sign when the value is negative.
\<close>

definition digits :: string where
  "digits = ''0123456789abcdefghijklmnopqrstuvwxyz''"

function formatBits_loop :: "uint64 \<Rightarrow> uint64 \<Rightarrow> string \<Rightarrow> string" where
  "formatBits_loop u b a =
     (if 2 \<le> b \<and> b \<le> u
      then formatBits_loop (u div b) b (digits ! unat (u - (u div b) * b) # a)
      else digits ! unat u # a)"
  by pat_completeness auto
termination
proof (relation "measure (\<lambda>(u, b, a). unat u)")
  show "wf (measure (\<lambda>(u, b, a). unat u))" by simp
next
  fix u b :: uint64 and a :: string
  assume "2 \<le> b \<and> b \<le> u"
  then have "2 \<le> unat b" "unat b \<le> unat u" by (simp_all add: word_le_nat_alt)
  then have "unat u div unat b < unat u" by simp
  then show "((u div b, b, digits ! unat (u - u div b * b) # a), (u, b, a))
      \<in> measure (\<lambda>(u, b, a). unat u)"
    by (simp add: unat_div)
qed

definition FormatInt :: "int64 \<Rightarrow> nat \<Rightarrow> string" where
  "FormatInt i base =
     (let neg = i <s 0;
          u = (if neg then - i else i);
          a = formatBits_loop u (of_nat base) []
      in if neg then CHR ''-'' # a else a)"

definition String :: "ID \<Rightarrow> string" where
  "String f = FormatInt f 10"

definition Base2 :: "ID \<Rightarrow> string" where
  "Base2 f = FormatInt f 2"

text \<open>
  The standard library's \<open>strconv.ParseUint\<close> and \<open>strconv.ParseInt\<close> with \<open>bitSize\<close> 64, for
  an explicit base from 2 to 36; underscores and base prefixes belong to base 0, which the
  source does not use, and every base outside 2 to 36 is answered with \<open>ErrBase\<close> here.
  \<open>maxUint64\<close> and \<open>maxVal\<close> are \<open>- 1\<close>, the word of 64 ones. The
  value of a digit: \<open>c - '0'\<close> for a decimal digit, \<open>lower(c) - 'a' + 10\<close> for a letter, where
  \<open>lower(c) = c | 0x20\<close>.
\<close>

definition digit_val :: "char \<Rightarrow> nat option" where
  "digit_val c =
     (let k = (of_char c :: nat); l = k OR 32 in
      if 48 \<le> k \<and> k \<le> 57 then Some (k - 48)
      else if 97 \<le> l \<and> l \<le> 122 then Some (l - 97 + 10)
      else None)"

fun ParseUint_loop :: "string \<Rightarrow> nat \<Rightarrow> uint64 \<Rightarrow> uint64 \<times> error option" where
  "ParseUint_loop [] base n = (n, None)"
| "ParseUint_loop (c # s) base n =
     (case digit_val c of
        None \<Rightarrow> (0, Some ErrSyntax)
      | Some d \<Rightarrow>
          if d \<ge> base then (0, Some ErrSyntax)
          else if n \<ge> (- 1) div of_nat base + 1 then (- 1, Some ErrRange)
          else
            let n' = n * of_nat base; n1 = n' + of_nat d in
            if n1 < n' \<or> - 1 < n1 then (- 1, Some ErrRange) else ParseUint_loop s base n1)"

definition ParseUint :: "string \<Rightarrow> nat \<Rightarrow> uint64 \<times> error option" where
  "ParseUint s base =
     (if s = [] then (0, Some ErrSyntax)
      else if base < 2 \<or> 36 < base then (0, Some ErrBase)
      else ParseUint_loop s base 0)"

definition ParseInt :: "string \<Rightarrow> nat \<Rightarrow> int64 \<times> error option" where
  "ParseInt s base =
     (if s = [] then (0, Some ErrSyntax)
      else
        let neg = (hd s = CHR ''-'');
            s' = (if hd s = CHR ''+'' \<or> hd s = CHR ''-'' then tl s else s);
            (un, err) = ParseUint s' base
        in if err \<noteq> None \<and> err \<noteq> Some ErrRange then (0, err)
           else if \<not> neg \<and> un \<ge> 2 ^ 63 then (2 ^ 63 - 1, Some ErrRange)
           else if neg \<and> un > 2 ^ 63 then (- (2 ^ 63), Some ErrRange)
           else (if neg then - un else un, None))"

text \<open>
  \<open>MarshalJSON\<close> gives the bytes of \<open>String\<close> and no error. \<open>UnmarshalJSON\<close> takes the value
  \<open>*f\<close> holds before the call and returns the one it holds after it, with the error.
\<close>

definition MarshalJSON :: "ID \<Rightarrow> string \<times> error option" where
  "MarshalJSON f = (String f, None)"

definition UnmarshalJSON :: "ID \<Rightarrow> string \<Rightarrow> ID \<times> error option" where
  "UnmarshalJSON f data =
     (case ParseInt data 10 of
        (i, Some err) \<Rightarrow> (f, Some err)
      | (i, None) \<Rightarrow> (i, None))"

section \<open>Runs and invariants\<close>


text \<open>
  The bit layout of a generator with \<open>nb\<close> node bits and \<open>sb\<close> step bits, as
  \<open>NewNodeWithConfig\<close> sets it up; \<open>Generate\<close> and \<open>GenerateBatch\<close> keep it.
\<close>

definition layout :: "Node \<Rightarrow> nat \<Rightarrow> nat \<Rightarrow> bool" where
  "layout n nb sb \<longleftrightarrow>
     nb + sb \<le> 22 \<and> nodeMax n = mask nb \<and> nodeMask n = push_bit sb (mask nb)
     \<and> stepMask n = mask sb \<and> unat (timeShift n) = nb + sb \<and> unat (nodeShift n) = sb
     \<and> take_bit nb (node n) = node n"


section \<open>Configuration validation\<close>

lemma not_push_ones: "(- 1) XOR push_bit k (- 1) = (mask k :: int64)"
  by (rule bit_word_eqI) (auto simp: bit_simps)

lemma sint_eq_uint_small: "uint (w :: int64) < 2 ^ 63 \<Longrightarrow> sint w = uint w"
proof -
  assume "uint w < 2 ^ 63"
  moreover have "- (2 ^ 63) \<le> uint w" by (rule order_trans [of _ 0]) simp_all
  ultimately have "signed_take_bit 63 (uint w) = uint w"
    by (rule signed_take_bit_int_eq_self [rotated])
  then show ?thesis by (simp add: sint_uint)
qed

lemma uint_mask_small: "k < 64 \<Longrightarrow> uint (mask k :: int64) = 2 ^ k - 1"
  by (simp add: uint_mask_eq min_def) (simp add: mask_eq_exp_minus_1)

lemma sint_mask_small:
  assumes "k < 63" shows "sint (mask k :: int64) = 2 ^ k - 1"
proof -
  have "(2 :: int) ^ k < 2 ^ 63" using assms by (intro power_strict_increasing) simp_all
  then have "uint (mask k :: int64) < 2 ^ 63" using assms by (simp add: uint_mask_small)
  then show ?thesis using assms by (simp add: sint_eq_uint_small uint_mask_small)
qed

lemma uint8_sum_small:
  "a \<le> (16 :: uint8) \<Longrightarrow> b \<le> (16 :: uint8) \<Longrightarrow> unat (a + b) = unat a + unat b"
  by (simp add: unat_word_ariths word_le_nat_alt)

text \<open>
  Claim C7. \<open>NewNodeWithConfig\<close> returns an error, of the kind \<open>ConfigError\<close>, exactly when
  \<open>NodeBits > 16\<close>, or \<open>StepBits > 16\<close>, or \<open>NodeBits + StepBits > 22\<close>, or \<open>Node\<close> lies outside
  \<open>[0, 2^NodeBits - 1]\<close>; then there is no generator. Otherwise it returns a generator with
  \<open>nodeMax = 2^NodeBits - 1\<close>, \<open>nodeMask = nodeMax << StepBits\<close>, \<open>stepMask = 2^StepBits - 1\<close>,
  \<open>timeShift = NodeBits + StepBits\<close> and \<open>nodeShift = StepBits\<close>. The two branches of the case
  exclude each other, so each condition holds exactly in its branch.
\<close>

theorem NewNodeWithConfig_contract:
  "(case NewNodeWithConfig cfg of
      Inl e \<Rightarrow>
        kind_of e = ConfigError \<and>
        (16 < unat (NodeBits cfg) \<or> 16 < unat (StepBits cfg)
         \<or> 22 < unat (NodeBits cfg) + unat (StepBits cfg)
         \<or> sint (Node cfg) < 0 \<or> 2 ^ unat (NodeBits cfg) - 1 < sint (Node cfg))
    | Inr n \<Rightarrow>
        unat (NodeBits cfg) \<le> 16 \<and> unat (StepBits cfg) \<le> 16
        \<and> unat (NodeBits cfg) + unat (StepBits cfg) \<le> 22
        \<and> 0 \<le> sint (Node cfg) \<and> sint (Node cfg) \<le> 2 ^ unat (NodeBits cfg) - 1
        \<and> node n = Node cfg \<and> time n = 0 \<and> step n = 0
        \<and> nodeMax n = 2 ^ unat (NodeBits cfg) - 1
        \<and> nodeMask n = push_bit (unat (StepBits cfg)) (nodeMax n)
        \<and> stepMask n = 2 ^ unat (StepBits cfg) - 1
        \<and> unat (timeShift n) = unat (NodeBits cfg) + unat (StepBits cfg)
        \<and> nodeShift n = StepBits cfg)"
proof -
  consider (a) "MaxNodeBits < NodeBits cfg"
    | (b) "NodeBits cfg \<le> MaxNodeBits" "MaxStepBits < StepBits cfg"
    | (c) "NodeBits cfg \<le> MaxNodeBits" "StepBits cfg \<le> MaxStepBits" "22 < NodeBits cfg + StepBits cfg"
    | (d) "NodeBits cfg \<le> MaxNodeBits" "StepBits cfg \<le> MaxStepBits" "NodeBits cfg + StepBits cfg \<le> 22"
    by (meson not_le)
  then show ?thesis
  proof cases
    case a
    then show ?thesis
      by (simp add: NewNodeWithConfig_def MaxNodeBits_def word_less_nat_alt)
  next
    case b
    then show ?thesis
      by (simp add: NewNodeWithConfig_def MaxNodeBits_def MaxStepBits_def word_less_nat_alt word_le_nat_alt)
  next
    case c
    then have "unat (NodeBits cfg + StepBits cfg) = unat (NodeBits cfg) + unat (StepBits cfg)"
      by (simp add: uint8_sum_small MaxNodeBits_def MaxStepBits_def)
    with c show ?thesis
      by (simp add: NewNodeWithConfig_def MaxNodeBits_def MaxStepBits_def word_less_nat_alt word_le_nat_alt)
  next
    case d
    then have sum: "unat (NodeBits cfg + StepBits cfg) = unat (NodeBits cfg) + unat (StepBits cfg)"
      by (simp add: uint8_sum_small MaxNodeBits_def MaxStepBits_def)
    have nb: "unat (NodeBits cfg) \<le> 16" and sb: "unat (StepBits cfg) \<le> 16"
      using d by (simp_all add: MaxNodeBits_def MaxStepBits_def word_le_nat_alt)
    have le: "unat (NodeBits cfg) + unat (StepBits cfg) \<le> 22"
      using d(3) sum by (simp add: word_le_nat_alt)
    have sm: "sint (mask (unat (NodeBits cfg)) :: int64) = 2 ^ unat (NodeBits cfg) - 1"
      using nb by (simp add: sint_mask_small)
    show ?thesis
      using d nb sb le sum sm
      by (simp add: NewNodeWithConfig_def Let_def not_push_ones word_sless_alt
          mask_eq_exp_minus_1 [symmetric] not_less)
  qed
qed

section \<open>Batch argument check\<close>

text \<open>
  Claim C6. \<open>GenerateBatch(count)\<close> fails, with an error of the kind \<open>ArgumentError\<close>, exactly
  when \<open>count \<le> 0\<close> or \<open>count > stepMask\<close>; it then returns without reading the clock and leaves
  the generator (so \<open>time\<close> and \<open>step\<close>) as it was. For every other \<open>count\<close>, that is for
  \<open>1 \<le> count \<le> stepMask\<close>, it returns no error, whatever the clock does.
\<close>

theorem GenerateBatch_argument_check:
  "(if count \<le>s 0 \<or> stepMask n <s count
    then \<exists>e. kind_of e = ArgumentError \<and> GenerateBatch n count clock = Some (Inl e, n, clock)
    else \<forall>e n' clock'. GenerateBatch n count clock \<noteq> Some (Inl e, n', clock'))"
  by (auto simp: GenerateBatch_def Let_def split: list.splits option.splits prod.splits)

section \<open>Base32 and Base58: shape of the encodings\<close>

declare base32_loop.simps [simp del] base58_loop.simps [simp del]

lemma base32_loop_app: "base32_loop f (a @ b) = a @ base32_loop f b"
proof (induction f b arbitrary: a rule: base32_loop.induct)
  case (1 f b)
  show ?case
  proof (cases "0 <s f")
    case True
    have "base32_loop f (a @ b) =
        base32_loop (go_div f 32) (a @ (b @ [encodeBase32Map ! nat (sint (go_rem f 32))]))"
      using True by (subst base32_loop.simps) simp
    also have "\<dots> = a @ base32_loop (go_div f 32) (b @ [encodeBase32Map ! nat (sint (go_rem f 32))])"
      using "1.IH" [OF True] .
    also have "\<dots> = a @ base32_loop f b"
      using True by (subst (2) base32_loop.simps) simp
    finally show ?thesis .
  next
    case False
    then show ?thesis by (simp add: base32_loop.simps)
  qed
qed

lemma base32_loop_pos:
  "0 <s f \<Longrightarrow> base32_loop f [] =
     encodeBase32Map ! nat (sint (go_rem f 32)) # base32_loop (go_div f 32) []"
  using base32_loop_app [of "go_div f 32" "[encodeBase32Map ! nat (sint (go_rem f 32))]" "[]"]
  by (subst base32_loop.simps) simp

lemma base32_loop_nonpos: "\<not> 0 <s f \<Longrightarrow> base32_loop f b = b"
  by (simp add: base32_loop.simps)

lemma base58_loop_app: "base58_loop f (a @ b) = a @ base58_loop f b"
proof (induction f b arbitrary: a rule: base58_loop.induct)
  case (1 f b)
  show ?case
  proof (cases "0 <s f")
    case True
    have "base58_loop f (a @ b) =
        base58_loop (go_div f 58) (a @ (b @ [encodeBase58Map ! nat (sint (go_rem f 58))]))"
      using True by (subst base58_loop.simps) simp
    also have "\<dots> = a @ base58_loop (go_div f 58) (b @ [encodeBase58Map ! nat (sint (go_rem f 58))])"
      using "1.IH" [OF True] .
    also have "\<dots> = a @ base58_loop f b"
      using True by (subst (2) base58_loop.simps) simp
    finally show ?thesis .
  next
    case False
    then show ?thesis by (simp add: base58_loop.simps)
  qed
qed

lemma base58_loop_pos:
  "0 <s f \<Longrightarrow> base58_loop f [] =
     encodeBase58Map ! nat (sint (go_rem f 58)) # base58_loop (go_div f 58) []"
  using base58_loop_app [of "go_div f 58" "[encodeBase58Map ! nat (sint (go_rem f 58))]" "[]"]
  by (subst base58_loop.simps) simp

lemma base58_loop_nonpos: "\<not> 0 <s f \<Longrightarrow> base58_loop f b = b"
  by (simp add: base58_loop.simps)

lemma sless_0_not_pos: "f <s 0 \<Longrightarrow> \<not> 0 <s (f :: int64)"
  by (simp add: word_sless_alt)

lemma sle_0_cases: "0 \<le>s (f :: int64) \<Longrightarrow> f = 0 \<or> 0 <s f"
  by (auto simp: signed.le_less)

text \<open>
  Claim C10. For a negative identifier \<open>f\<close>, \<open>Base32\<close> and \<open>Base58\<close> return the empty string;
  \<open>ParseBase32\<close> and \<open>ParseBase58\<close> of the empty string return the identifier 0 and no error;
  for a non-negative identifier \<open>g\<close>, \<open>Base32\<close> and \<open>Base58\<close> return a non-empty string. The
  loops of the encoders end for every identifier: \<open>base32_loop\<close> and \<open>base58_loop\<close> are total
  functions, by their termination proofs.
\<close>

theorem Base32_Base58_sign:
  assumes "f <s 0" and "0 \<le>s g"
  shows "Base32 f = [] \<and> Base58 f = []
       \<and> ParseBase32 [] = (0, None) \<and> ParseBase58 [] = (0, None)
       \<and> Base32 g \<noteq> [] \<and> Base58 g \<noteq> []"
proof -
  have "f \<noteq> 0" using assms(1) by auto
  then have "Base32 f = []" "Base58 f = []"
    using assms(1) by (simp_all add: Base32_def Base58_def base32_loop_nonpos base58_loop_nonpos sless_0_not_pos)
  moreover have "ParseBase32 [] = (0, None)" "ParseBase58 [] = (0, None)"
    by (simp_all add: ParseBase32_def ParseBase58_def)
  moreover have "Base32 g \<noteq> []" "Base58 g \<noteq> []"
    using sle_0_cases [OF assms(2)]
    by (auto simp: Base32_def Base58_def base32_loop_pos base58_loop_pos)
  ultimately show ?thesis by simp
qed

theorem Base32_Base58_sign_witness:
  "(- 1 :: int64) <s 0 \<and> (0 :: int64) \<le>s 5
   \<and> Base32 (- 1) = [] \<and> Base58 (- 1) = []
   \<and> ParseBase32 [] = (0, None) \<and> ParseBase58 [] = (0, None)
   \<and> Base32 5 \<noteq> [] \<and> Base58 5 \<noteq> []"
proof -
  have a: "(- 1 :: int64) <s 0" by simp
  have b: "(0 :: int64) \<le>s 5" by (simp add: word_sle_eq)
  show ?thesis using Base32_Base58_sign [OF a b] a b by simp
qed

section \<open>Decode tables\<close>

lemma initDecodeMap_fold_notin:
  "n \<le> length em \<Longrightarrow> c \<notin> set (take n em) \<Longrightarrow>
   fold (\<lambda>i decodeMap. decodeMap(em ! i := of_nat i)) [0..<n] (\<lambda>_. 0xFF) c = (0xFF :: byte)"
  by (induction n) (auto simp: take_Suc_conv_app_nth)

lemma initDecodeMap_fold_nth:
  "n \<le> length em \<Longrightarrow> distinct em \<Longrightarrow> i < n \<Longrightarrow>
   fold (\<lambda>i decodeMap. decodeMap(em ! i := of_nat i)) [0..<n] (\<lambda>_. 0xFF) (em ! i) = (of_nat i :: byte)"
  by (induction n) (auto simp: less_Suc_eq nth_eq_iff_index_eq)

lemma initDecodeMap_notin: "c \<notin> set em \<Longrightarrow> initDecodeMap em c = 0xFF"
  unfolding initDecodeMap_def by (rule initDecodeMap_fold_notin) simp_all

lemma initDecodeMap_nth: "distinct em \<Longrightarrow> i < length em \<Longrightarrow> initDecodeMap em (em ! i) = of_nat i"
  unfolding initDecodeMap_def by (rule initDecodeMap_fold_nth) simp_all

lemma initDecodeMap_in:
  assumes "distinct em" "length em \<le> 255" "c \<in> set em"
  shows "initDecodeMap em c \<noteq> 0xFF"
proof -
  obtain i where i: "i < length em" "em ! i = c" using assms(3) by (auto simp: in_set_conv_nth)
  then have "initDecodeMap em c = of_nat i" using initDecodeMap_nth [OF assms(1) i(1)] by simp
  moreover have "(of_nat i :: byte) \<noteq> 0xFF"
  proof
    assume "(of_nat i :: byte) = 0xFF"
    then have "unat (of_nat i :: byte) = 255" by simp
    moreover have "unat (of_nat i :: byte) = i" using i(1) assms(2) by (simp add: unat_of_nat)
    ultimately show False using i(1) assms(2) by simp
  qed
  ultimately show ?thesis by simp
qed

lemma distinct_encodeBase32Map: "distinct encodeBase32Map"
  by (simp add: encodeBase32Map_def)

lemma length_encodeBase32Map: "length encodeBase32Map = 32"
  by (simp add: encodeBase32Map_def)

lemma distinct_encodeBase58Map: "distinct encodeBase58Map"
  by (simp add: encodeBase58Map_def)

lemma length_encodeBase58Map: "length encodeBase58Map = 58"
  by (simp add: encodeBase58Map_def)

lemma decodeBase32Map_FF: "decodeBase32Map c = 0xFF \<longleftrightarrow> c \<notin> set encodeBase32Map"
  using initDecodeMap_notin [of c encodeBase32Map]
    initDecodeMap_in [OF distinct_encodeBase32Map, of c]
  by (auto simp: decodeBase32Map_def length_encodeBase32Map)

lemma decodeBase58Map_FF: "decodeBase58Map c = 0xFF \<longleftrightarrow> c \<notin> set encodeBase58Map"
  using initDecodeMap_notin [of c encodeBase58Map]
    initDecodeMap_in [OF distinct_encodeBase58Map, of c]
  by (auto simp: decodeBase58Map_def length_encodeBase58Map)

lemma decodeBase32Map_nth: "i < 32 \<Longrightarrow> decodeBase32Map (encodeBase32Map ! i) = of_nat i"
  by (simp add: decodeBase32Map_def initDecodeMap_nth distinct_encodeBase32Map length_encodeBase32Map)

lemma decodeBase58Map_nth: "i < 58 \<Longrightarrow> decodeBase58Map (encodeBase58Map ! i) = of_nat i"
  by (simp add: decodeBase58Map_def initDecodeMap_nth distinct_encodeBase58Map length_encodeBase58Map)

section \<open>Rejected input\<close>

lemma ParseBase32_loop_invalid:
  "c \<in> set b \<Longrightarrow> c \<notin> set encodeBase32Map \<Longrightarrow>
   ParseBase32_loop b i = (0, Some InvalidBase32Character)"
  by (induction b arbitrary: i) (auto simp: decodeBase32Map_FF)

lemma ParseBase58_loop_invalid:
  "c \<in> set b \<Longrightarrow> c \<notin> set encodeBase58Map \<Longrightarrow>
   ParseBase58_loop b i = (0, Some InvalidBase58Character)"
  by (induction b arbitrary: i) (auto simp: decodeBase58Map_FF)

lemma ParseBase32_loop_valid:
  "set b \<subseteq> set encodeBase32Map \<Longrightarrow> snd (ParseBase32_loop b i) = None"
  by (induction b arbitrary: i) (auto simp: decodeBase32Map_FF)

lemma ParseBase58_loop_valid:
  "set b \<subseteq> set encodeBase58Map \<Longrightarrow> snd (ParseBase58_loop b i) = None"
  by (induction b arbitrary: i) (auto simp: decodeBase58Map_FF)

lemma decode_loop_error:
  "decode_loop s si dbuf dst = Inl e \<Longrightarrow> kind_of e = MalformedEncoding"
  by (induction s si dbuf dst rule: decode_loop.induct) (auto simp: Let_def split: if_splits)

text \<open>
  Claim C9. An input of \<open>ParseBase32\<close> (of \<open>ParseBase58\<close>) with a byte outside the alphabet is
  answered with the identifier 0 and the invalid-character error, of the kind
  \<open>InvalidCharacter\<close>: the result is the same whatever stands before and after the first such
  byte, so nothing parsed so far is returned. When the decoder of \<open>base64.RawURLEncoding\<close>
  fails, \<open>ParseBase64\<close> returns the identifier 0 and the decoder's error, of the kind
  \<open>MalformedEncoding\<close>.
\<close>

theorem Parse_rejects_malformed:
  assumes "c32 \<in> set b32" and "c32 \<notin> set encodeBase32Map"
    and "c58 \<in> set b58" and "c58 \<notin> set encodeBase58Map"
    and "DecodeString b64 = Inl e"
  shows "ParseBase32 b32 = (0, Some InvalidBase32Character)
       \<and> kind_of InvalidBase32Character = InvalidCharacter
       \<and> ParseBase58 b58 = (0, Some InvalidBase58Character)
       \<and> kind_of InvalidBase58Character = InvalidCharacter
       \<and> ParseBase64 b64 = (0, Some e) \<and> kind_of e = MalformedEncoding"
proof -
  have "ParseBase32 b32 = (0, Some InvalidBase32Character)"
    unfolding ParseBase32_def using assms(1,2) by (rule ParseBase32_loop_invalid)
  moreover have "ParseBase58 b58 = (0, Some InvalidBase58Character)"
    unfolding ParseBase58_def using assms(3,4) by (rule ParseBase58_loop_invalid)
  moreover have "ParseBase64 b64 = (0, Some e)"
    using assms(5) by (simp add: ParseBase64_def)
  moreover have "kind_of e = MalformedEncoding"
    using assms(5) unfolding DecodeString_def by (rule decode_loop_error)
  ultimately show ?thesis by simp
qed

lemma decodeURL_A: "decodeURL CHR ''A'' = 0"
  by (simp add: decodeURL_def initDecodeMap_def encodeURL_def upt_rec)

lemma decodeURL_eqsign: "decodeURL CHR ''='' = 0xFF"
  by (simp add: decodeURL_def initDecodeMap_def encodeURL_def upt_rec)

theorem Parse_rejects_malformed_witness:
  "CHR ''W'' \<in> set ''7wW3'' \<and> CHR ''W'' \<notin> set encodeBase32Map
   \<and> CHR ''0'' \<in> set ''120z'' \<and> CHR ''0'' \<notin> set encodeBase58Map
   \<and> DecodeString ''A='' = Inl (CorruptInputError 1)
   \<and> ParseBase32 ''7wW3'' = (0, Some InvalidBase32Character)
   \<and> ParseBase58 ''120z'' = (0, Some InvalidBase58Character)
   \<and> ParseBase64 ''A='' = (0, Some (CorruptInputError 1))
   \<and> kind_of (CorruptInputError 1) = MalformedEncoding"
proof -
  have a: "CHR ''W'' \<in> set ''7wW3''" by simp
  have b: "CHR ''W'' \<notin> set encodeBase32Map" by (simp add: encodeBase32Map_def)
  have c: "CHR ''0'' \<in> set ''120z''" by simp
  have d: "CHR ''0'' \<notin> set encodeBase58Map" by (simp add: encodeBase58Map_def)
  have e: "DecodeString ''A='' = Inl (CorruptInputError 1)"
    by (simp add: DecodeString_def decodeURL_A decodeURL_eqsign)
  show ?thesis using Parse_rejects_malformed [OF a b c d e] a b c d e by simp
qed

section \<open>Single generation\<close>

lemma wait_clock_dropWhile:
  "now \<le>s t \<Longrightarrow>
   wait_clock now t clock =
     (case dropWhile (\<lambda>x. x \<le>s t) clock of [] \<Rightarrow> None | now' # rest' \<Rightarrow> Some (now', rest'))"
proof (induction clock arbitrary: now)
  case Nil
  then show ?case by simp
next
  case (Cons s clock)
  show ?case
  proof (cases "s \<le>s t")
    case True
    with Cons show ?thesis by simp
  next
    case False
    with Cons.prems show ?thesis by (cases clock) simp_all
  qed
qed

text \<open>
  Claim C4. The state transition of \<open>Generate\<close>, with \<open>now\<close> the clock sample it takes first.
  When \<open>now \<noteq> time\<close> (a later or an earlier sample alike), the step becomes 0. When
  \<open>now = time\<close> and \<open>(step + 1) & stepMask\<close> is not 0, the step becomes that value. When
  \<open>now = time\<close> and \<open>(step + 1) & stepMask\<close> is 0, the clock is sampled again until a sample is
  after \<open>time\<close>: \<open>now\<close> becomes the first sample after \<open>time\<close>, the samples before it are used up,
  the step stays 0, and the call does not return when there is no such sample. In each case
  \<open>time\<close> becomes \<open>now\<close> and the identifier returned is
  \<open>(now << timeShift) | (node << nodeShift) | step\<close>.
\<close>

theorem Generate_transition:
  assumes "now1 \<noteq> time n1"
    and "(step n2 + 1) AND stepMask n2 \<noteq> 0"
    and "(step n3 + 1) AND stepMask n3 = 0"
  shows "Generate n1 (now1 # rest1) =
           Some (push_bit (unat (timeShift n1)) now1 OR push_bit (unat (nodeShift n1)) (node n1) OR 0,
                 n1\<lparr>step := 0, time := now1\<rparr>, rest1)
       \<and> Generate n2 (time n2 # rest2) =
           Some (push_bit (unat (timeShift n2)) (time n2) OR push_bit (unat (nodeShift n2)) (node n2)
                   OR ((step n2 + 1) AND stepMask n2),
                 n2\<lparr>step := (step n2 + 1) AND stepMask n2, time := time n2\<rparr>, rest2)
       \<and> Generate n3 (time n3 # rest3) =
           (case dropWhile (\<lambda>x. x \<le>s time n3) rest3 of
              [] \<Rightarrow> None
            | now' # rest' \<Rightarrow>
                Some (push_bit (unat (timeShift n3)) now' OR push_bit (unat (nodeShift n3)) (node n3) OR 0,
                      n3\<lparr>step := 0, time := now'\<rparr>, rest'))"
proof -
  have "Generate n1 (now1 # rest1) =
           Some (push_bit (unat (timeShift n1)) now1 OR push_bit (unat (nodeShift n1)) (node n1) OR 0,
                 n1\<lparr>step := 0, time := now1\<rparr>, rest1)"
    using assms(1) by (simp add: Generate_def)
  moreover have "Generate n2 (time n2 # rest2) =
           Some (push_bit (unat (timeShift n2)) (time n2) OR push_bit (unat (nodeShift n2)) (node n2)
                   OR ((step n2 + 1) AND stepMask n2),
                 n2\<lparr>step := (step n2 + 1) AND stepMask n2, time := time n2\<rparr>, rest2)"
    using assms(2) by (simp add: Generate_def Let_def)
  moreover have "Generate n3 (time n3 # rest3) =
           (case dropWhile (\<lambda>x. x \<le>s time n3) rest3 of
              [] \<Rightarrow> None
            | now' # rest' \<Rightarrow>
                Some (push_bit (unat (timeShift n3)) now' OR push_bit (unat (nodeShift n3)) (node n3) OR 0,
                      n3\<lparr>step := 0, time := now'\<rparr>, rest'))"
  proof (cases "dropWhile (\<lambda>x. x \<le>s time n3) rest3")
    case Nil
    then show ?thesis
      using assms(3) by (simp add: Generate_def Let_def wait_clock_dropWhile del: dropWhile_eq_Nil_conv)
  next
    case (Cons now' rest')
    then show ?thesis
      using assms(3) by (simp add: Generate_def Let_def wait_clock_dropWhile)
  qed
  ultimately show ?thesis by simp
qed

theorem Generate_transition_witness:
  "(7 :: int64) \<noteq> time \<lparr>time = 3, node = 5, step = 9, nodeMax = 1023, nodeMask = 4190208,
        stepMask = 4095, timeShift = 22, nodeShift = 12\<rparr>
   \<and> Generate \<lparr>time = 3, node = 5, step = 9, nodeMax = 1023, nodeMask = 4190208,
        stepMask = 4095, timeShift = 22, nodeShift = 12\<rparr> [7, 8] =
       Some (29380608, \<lparr>time = 7, node = 5, step = 0, nodeMax = 1023, nodeMask = 4190208,
        stepMask = 4095, timeShift = 22, nodeShift = 12\<rparr>, [8])
   \<and> Generate \<lparr>time = 3, node = 5, step = 9, nodeMax = 1023, nodeMask = 4190208,
        stepMask = 4095, timeShift = 22, nodeShift = 12\<rparr> [3, 8] =
       Some (12603402, \<lparr>time = 3, node = 5, step = 10, nodeMax = 1023, nodeMask = 4190208,
        stepMask = 4095, timeShift = 22, nodeShift = 12\<rparr>, [8])
   \<and> Generate \<lparr>time = 3, node = 5, step = 4095, nodeMax = 1023, nodeMask = 4190208,
        stepMask = 4095, timeShift = 22, nodeShift = 12\<rparr> [3, 3, 2, 4, 9] =
       Some (16797696, \<lparr>time = 4, node = 5, step = 0, nodeMax = 1023, nodeMask = 4190208,
        stepMask = 4095, timeShift = 22, nodeShift = 12\<rparr>, [9])"
  using Generate_transition [of 7
      "\<lparr>time = 3, node = 5, step = 9, nodeMax = 1023, nodeMask = 4190208,
        stepMask = 4095, timeShift = 22, nodeShift = 12\<rparr>"
      "\<lparr>time = 3, node = 5, step = 9, nodeMax = 1023, nodeMask = 4190208,
        stepMask = 4095, timeShift = 22, nodeShift = 12\<rparr>"
      "\<lparr>time = 3, node = 5, step = 4095, nodeMax = 1023, nodeMask = 4190208,
        stepMask = 4095, timeShift = 22, nodeShift = 12\<rparr>"
      "[8]" "[8]" "[3, 2, 4, 9]"]
  by (simp add: word_sle_eq)

section \<open>Bit layout\<close>

lemma take_bit_iff_uint: "take_bit k (w :: int64) = w \<longleftrightarrow> uint w < 2 ^ k"
  by (simp add: take_bit_eq_mask mask_eq_iff)

lemma take_bit_bitD: "take_bit k (w :: int64) = w \<Longrightarrow> bit w i \<Longrightarrow> i < k"
  by (metis bit_take_bit_iff)

lemma sint_nonneg_uint:
  assumes "0 \<le> sint (w :: int64)" shows "sint w = uint w"
proof -
  have "\<not> bit w 63" using assms bit_last_iff [of w] by simp
  have "take_bit 63 w = w"
  proof (rule bit_word_eqI)
    fix n assume "n < LENGTH(64)"
    then have "n < 63 \<or> n = 63" by auto
    then show "bit (take_bit 63 w) n = bit w n"
      using \<open>\<not> bit w 63\<close> by (auto simp: bit_simps)
  qed
  then have "uint w < 2 ^ 63" by (simp only: take_bit_iff_uint)
  then show ?thesis by (rule sint_eq_uint_small)
qed

lemma take_bit_of_range:
  assumes "0 \<le>s (w :: int64)" and "w \<le>s mask k" and "k < 63"
  shows "take_bit k w = w"
proof -
  have "0 \<le> sint w" using assms(1) by (simp add: word_sle_eq)
  then have "sint w = uint w" by (rule sint_nonneg_uint)
  moreover have "sint w \<le> 2 ^ k - 1"
    using assms(2,3) by (simp add: word_sle_eq sint_mask_small)
  ultimately have "uint w < 2 ^ k" by simp
  then show ?thesis by (simp only: take_bit_iff_uint)
qed

lemma Step_packed:
  assumes "take_bit sb s = (s :: int64)"
  shows "(push_bit (nb + sb) t OR push_bit sb nd OR s) AND mask sb = s"
  by (rule bit_word_eqI) (auto simp: bit_simps dest: take_bit_bitD [OF assms])

lemma NodeID_packed:
  assumes "take_bit sb s = (s :: int64)" and "take_bit nb nd = nd" and "nb + sb \<le> 22"
  shows "signed_drop_bit sb ((push_bit (nb + sb) t OR push_bit sb nd OR s) AND push_bit sb (mask nb)) = nd"
  using assms(3)
  by (intro bit_word_eqI)
    (auto simp: bit_simps dest: take_bit_bitD [OF assms(1)] take_bit_bitD [OF assms(2)])

lemma Time_packed:
  assumes "take_bit sb s = (s :: int64)" and "take_bit nb nd = nd" and "nb + sb \<le> 22"
  shows "signed_drop_bit (nb + sb) (push_bit (nb + sb) t OR push_bit sb nd OR s)
       = signed_drop_bit (nb + sb) (push_bit (nb + sb) t)"
  using assms(3)
  by (intro bit_word_eqI)
    (auto simp: bit_simps dest: take_bit_bitD [OF assms(1)] take_bit_bitD [OF assms(2)])

lemma NewNodeWithConfig_layout:
  assumes "NewNodeWithConfig cfg = Inr n"
  shows "layout n (unat (NodeBits cfg)) (unat (StepBits cfg))"
    and "time n = 0" and "step n = 0" and "node n = Node cfg"
    and "0 \<le>s node n" and "node n \<le>s nodeMax n"
proof -
  from assms have d: "NodeBits cfg \<le> MaxNodeBits" "StepBits cfg \<le> MaxStepBits"
      "NodeBits cfg + StepBits cfg \<le> 22"
    by (auto simp: NewNodeWithConfig_def Let_def not_less split: if_splits)
  from assms d have r: "0 \<le>s Node cfg" "Node cfg \<le>s mask (unat (NodeBits cfg))"
    by (auto simp: NewNodeWithConfig_def Let_def not_push_ones signed.not_less split: if_splits)
  from assms d have n: "n = \<lparr>time = 0, node = Node cfg, step = 0,
        nodeMax = mask (unat (NodeBits cfg)),
        nodeMask = push_bit (unat (StepBits cfg)) (mask (unat (NodeBits cfg))),
        stepMask = mask (unat (StepBits cfg)),
        timeShift = NodeBits cfg + StepBits cfg, nodeShift = StepBits cfg\<rparr>"
    by (auto simp: NewNodeWithConfig_def Let_def not_push_ones split: if_splits)
  have nb: "unat (NodeBits cfg) \<le> 16" and sb: "unat (StepBits cfg) \<le> 16"
    using d by (simp_all add: MaxNodeBits_def MaxStepBits_def word_le_nat_alt)
  have sum: "unat (NodeBits cfg + StepBits cfg) = unat (NodeBits cfg) + unat (StepBits cfg)"
    using nb sb by (simp add: unat_word_ariths)
  have le: "unat (NodeBits cfg) + unat (StepBits cfg) \<le> 22"
    using d(3) sum by (simp add: word_le_nat_alt)
  have tb: "take_bit (unat (NodeBits cfg)) (Node cfg) = Node cfg"
    using r nb by (intro take_bit_of_range) simp_all
  show "layout n (unat (NodeBits cfg)) (unat (StepBits cfg))"
    using le sum tb by (simp add: layout_def n)
  show "time n = 0" "step n = 0" "node n = Node cfg" by (simp_all add: n)
  show "0 \<le>s node n" "node n \<le>s nodeMax n" using r by (simp_all add: n)
qed

section \<open>Component extraction\<close>

text \<open>
  Claim C8. Let \<open>n\<close> be a generator built by \<open>NewNodeWithConfig\<close>, in any later state (its
  \<open>time\<close> and \<open>step\<close> may have changed), and \<open>f\<close> an identifier
  \<open>(t << timeShift) | (nd << nodeShift) | s\<close> with any node value \<open>0 \<le> nd \<le> nodeMax\<close> and any step
  \<open>0 \<le> s \<le> stepMask\<close>, whatever the timestamp \<open>t\<close>. Then \<open>NodeID\<close> returns
  \<open>(f & nodeMask) >> nodeShift\<close>, which is the node value \<open>nd\<close> packed into \<open>f\<close>, and \<open>Step\<close>
  returns \<open>f & stepMask\<close>, which is the step \<open>s\<close> packed into \<open>f\<close>, a value from 0 to
  \<open>stepMask\<close>: the two projections read the identifier and invert the packing. The configured
  node of \<open>n\<close> is such a node value, so for an identifier that \<open>n\<close> itself produces \<open>NodeID\<close>
  returns the configured node.
\<close>

theorem extraction_inverts_packing:
  assumes "NewNodeWithConfig cfg = Inr n0"
    and "n = n0\<lparr>time := tm, step := st\<rparr>"
    and "0 \<le>s nd" and "nd \<le>s nodeMax n"
    and "0 \<le>s s" and "s \<le>s stepMask n"
    and "f = push_bit (unat (timeShift n)) t OR push_bit (unat (nodeShift n)) nd OR s"
  shows "NodeID f n = signed_drop_bit (unat (nodeShift n)) (f AND nodeMask n)
       \<and> NodeID f n = nd
       \<and> Step f n = f AND stepMask n \<and> Step f n = s
       \<and> 0 \<le>s Step f n \<and> Step f n \<le>s stepMask n
       \<and> node n = Node cfg \<and> 0 \<le>s node n \<and> node n \<le>s nodeMax n
       \<and> NodeID (push_bit (unat (timeShift n)) t OR push_bit (unat (nodeShift n)) (node n) OR s) n
           = Node cfg
       \<and> Step (push_bit (unat (timeShift n)) t OR push_bit (unat (nodeShift n)) (node n) OR s) n
           = s"
proof -
  let ?nb = "unat (NodeBits cfg)" and ?sb = "unat (StepBits cfg)"
  note l0 = NewNodeWithConfig_layout [OF assms(1)]
  have l: "layout n ?nb ?sb" using l0(1) by (simp add: layout_def assms(2))
  then have sb: "?sb < 63" and nb: "?nb < 63" and le: "?nb + ?sb \<le> 22"
    by (simp_all add: layout_def)
  have s: "take_bit ?sb s = s"
    using assms(5,6) l sb by (intro take_bit_of_range) (simp_all add: layout_def)
  have nd: "take_bit ?nb nd = nd"
    using assms(3,4) l nb by (intro take_bit_of_range) (simp_all add: layout_def)
  have own: "take_bit ?nb (node n) = node n" using l by (simp add: layout_def)
  have f: "f = push_bit (?nb + ?sb) t OR push_bit ?sb nd OR s"
    using l by (simp add: assms(7) layout_def)
  have cfgn: "node n = Node cfg" "0 \<le>s node n" "node n \<le>s nodeMax n"
    using l0 by (simp_all add: assms(2))
  have "Step f n = s"
    using l Step_packed [OF s, of ?nb t nd] by (simp add: Step_def f layout_def)
  moreover have "NodeID f n = nd"
    using l NodeID_packed [OF s nd le, of t] by (simp add: NodeID_def f layout_def)
  moreover have "NodeID (push_bit (unat (timeShift n)) t
      OR push_bit (unat (nodeShift n)) (node n) OR s) n = Node cfg"
    using l NodeID_packed [OF s own le, of t] cfgn(1) by (simp add: NodeID_def layout_def)
  moreover have "Step (push_bit (unat (timeShift n)) t
      OR push_bit (unat (nodeShift n)) (node n) OR s) n = s"
    using l Step_packed [OF s, of ?nb t "node n"] by (simp add: Step_def layout_def)
  ultimately show ?thesis
    using assms(5,6) cfgn by (simp add: NodeID_def Step_def)
qed

theorem extraction_inverts_packing_witness:
  "NewNodeWithConfig \<lparr>Epoch = 1700000000000, NodeBits = 10, StepBits = 12, Node = 5\<rparr> =
     Inr \<lparr>time = 0, node = 5, step = 0, nodeMax = 1023, nodeMask = 4190208,
          stepMask = 4095, timeShift = 22, nodeShift = 12\<rparr>
   \<and> NodeID 29396999 \<lparr>time = 7, node = 5, step = 7, nodeMax = 1023, nodeMask = 4190208,
          stepMask = 4095, timeShift = 22, nodeShift = 12\<rparr> = 9
   \<and> Step 29396999 \<lparr>time = 7, node = 5, step = 7, nodeMax = 1023, nodeMask = 4190208,
          stepMask = 4095, timeShift = 22, nodeShift = 12\<rparr> = 7
   \<and> NodeID 29380615 \<lparr>time = 7, node = 5, step = 7, nodeMax = 1023, nodeMask = 4190208,
          stepMask = 4095, timeShift = 22, nodeShift = 12\<rparr> = 5
   \<and> Step 29380615 \<lparr>time = 7, node = 5, step = 7, nodeMax = 1023, nodeMask = 4190208,
          stepMask = 4095, timeShift = 22, nodeShift = 12\<rparr> = 7"
proof -
  have a: "NewNodeWithConfig \<lparr>Epoch = 1700000000000, NodeBits = 10, StepBits = 12, Node = 5\<rparr> =
     Inr \<lparr>time = 0, node = 5, step = 0, nodeMax = 1023, nodeMask = 4190208,
          stepMask = 4095, timeShift = 22, nodeShift = 12\<rparr>"
    by (simp add: NewNodeWithConfig_def MaxNodeBits_def MaxStepBits_def Let_def
        mask_eq_exp_minus_1 word_sless_alt)
  have b: "\<lparr>time = 7, node = 5, step = 7, nodeMax = 1023, nodeMask = 4190208,
          stepMask = 4095, timeShift = 22, nodeShift = 12\<rparr>
        = \<lparr>time = 0, node = 5, step = 0, nodeMax = 1023, nodeMask = 4190208,
          stepMask = 4095, timeShift = 22, nodeShift = (12 :: uint8)\<rparr>\<lparr>time := 7, step := 7\<rparr>"
    by simp
  have c: "(0 :: int64) \<le>s 9" by (simp add: word_sle_eq)
  have d: "(9 :: int64) \<le>s nodeMax \<lparr>time = 7, node = 5, step = 7, nodeMax = 1023, nodeMask = 4190208,
          stepMask = 4095, timeShift = 22, nodeShift = 12\<rparr>" by (simp add: word_sle_eq)
  have e: "(0 :: int64) \<le>s 7" by (simp add: word_sle_eq)
  have f: "(7 :: int64) \<le>s stepMask \<lparr>time = 7, node = 5, step = 7, nodeMax = 1023, nodeMask = 4190208,
          stepMask = 4095, timeShift = 22, nodeShift = 12\<rparr>" by (simp add: word_sle_eq)
  have g: "(29396999 :: int64) =
      push_bit (unat (timeShift \<lparr>time = 7, node = 5, step = 7, nodeMax = 1023, nodeMask = 4190208,
          stepMask = 4095, timeShift = 22, nodeShift = 12\<rparr>)) 7
      OR push_bit (unat (nodeShift \<lparr>time = 7, node = 5, step = 7, nodeMax = 1023, nodeMask = 4190208,
          stepMask = 4095, timeShift = 22, nodeShift = 12\<rparr>)) 9 OR 7"
    by simp
  have h: "(29380615 :: int64) =
      push_bit (unat (timeShift \<lparr>time = 7, node = 5, step = 7, nodeMax = 1023, nodeMask = 4190208,
          stepMask = 4095, timeShift = 22, nodeShift = 12\<rparr>)) 7
      OR push_bit (unat (nodeShift \<lparr>time = 7, node = 5, step = 7, nodeMax = 1023, nodeMask = 4190208,
          stepMask = 4095, timeShift = 22, nodeShift = 12\<rparr>))
           (node \<lparr>time = 7, node = 5, step = 7, nodeMax = 1023, nodeMask = 4190208,
          stepMask = 4095, timeShift = 22, nodeShift = 12\<rparr>) OR 7"
    by simp
  show ?thesis
    using extraction_inverts_packing [OF a b c d e f g] a by (simp flip: h)
qed

section \<open>Batch generation\<close>

lemma batch_loop_eq:
  "batch_loop k now n =
     (map (\<lambda>i. push_bit (unat (timeShift n)) now OR push_bit (unat (nodeShift n)) (node n)
                  OR (step n + of_nat i)) [0..<k],
      n\<lparr>step := step n + of_nat k\<rparr>)"
proof (induction k arbitrary: n)
  case 0
  show ?case by simp
next
  case (Suc k)
  show ?case
    by (simp only: batch_loop.simps Suc.IH map_upt_Suc Let_def prod.case)
       (simp add: add.assoc)
qed

lemma of_nat_nat_sint: "0 <s (c :: int64) \<Longrightarrow> of_nat (nat (sint c)) = c"
  by (simp add: word_sless_alt)

lemma unat_small_add:
  assumes "unat (a :: int64) + b < 2 ^ k" and "k < 63"
  shows "take_bit k (a + of_nat b) = a + of_nat b"
proof -
  have "(2 :: nat) ^ k < 2 ^ 64" using assms(2) by (intro power_strict_increasing) simp_all
  then have lt: "unat a + b < 2 ^ 64" using assms(1) by simp
  then have "b < 2 ^ 64" by simp
  then have "unat (of_nat b :: int64) = b" by (simp add: unat_of_nat)
  then have "unat (a + of_nat b) = unat a + b"
    using lt by (simp add: unat_word_ariths)
  then have "uint (a + of_nat b) = int (unat a + b)" by (metis uint_nat)
  also have "\<dots> < 2 ^ k" using assms(1) by (metis of_nat_less_iff of_nat_numeral of_nat_power)
  finally show ?thesis by (simp only: take_bit_iff_uint)
qed

lemma take_bit_range:
  assumes "take_bit k (w :: int64) = w" and "k < 63"
  shows "0 \<le>s w" and "w \<le>s mask k"
proof -
  have u: "uint w < 2 ^ k" using assms(1) by (simp only: take_bit_iff_uint)
  have "(2 :: int) ^ k < 2 ^ 63" using assms(2) by (intro power_strict_increasing) simp_all
  then have "uint w < 2 ^ 63" using u by simp
  then have s: "sint w = uint w" by (rule sint_eq_uint_small)
  show "0 \<le>s w" by (simp add: word_sle_eq s)
  show "w \<le>s mask k" using u assms(2) by (simp add: word_sle_eq s sint_mask_small)
qed

lemma packed_fields:
  assumes l: "layout n nb sb" and r: "unat s + i < 2 ^ sb"
    and f_def: "f = push_bit (unat (timeShift n)) t OR push_bit (unat (nodeShift n)) (node n)
                 OR (s + of_nat i)"
  shows "Step f n = s + of_nat i \<and> NodeID f n = node n
       \<and> Time f n e = signed_drop_bit (nb + sb) (push_bit (nb + sb) t) + e
       \<and> 0 \<le>s s + of_nat i \<and> s + of_nat i \<le>s stepMask n"
proof -
  have sb: "sb < 63" and le: "nb + sb \<le> 22" using l by (simp_all add: layout_def)
  have tb: "take_bit sb (s + of_nat i) = s + of_nat i" using r sb by (rule unat_small_add)
  have nd: "take_bit nb (node n) = node n" using l by (simp add: layout_def)
  have f: "f = push_bit (nb + sb) t OR push_bit sb (node n) OR (s + of_nat i)"
    using l by (simp add: f_def layout_def)
  have "Step f n = s + of_nat i"
    using l Step_packed [OF tb, of nb t "node n"] by (simp add: Step_def f layout_def)
  moreover have "NodeID f n = node n"
    using l NodeID_packed [OF tb nd le, of t] by (simp add: NodeID_def f layout_def)
  moreover have "Time f n e = signed_drop_bit (nb + sb) (push_bit (nb + sb) t) + e"
    using l Time_packed [OF tb nd le, of t] by (simp add: Time_def f layout_def)
  moreover have "0 \<le>s s + of_nat i" "s + of_nat i \<le>s stepMask n"
    using take_bit_range [OF tb sb] l by (simp_all add: layout_def)
  ultimately show ?thesis by simp
qed

lemma sint_small_sum:
  assumes "0 \<le> sint (a :: int64)" "sint a < 2 ^ 62" "0 \<le> sint (b :: int64)" "sint b < 2 ^ 62"
  shows "sint (a + b) = sint a + sint b"
proof -
  have "sint (a + b) = signed_take_bit 63 (sint a + sint b)"
    by (simp add: sint_word_ariths)
  also have "\<dots> = sint a + sint b"
    using assms by (intro signed_take_bit_int_eq_self) simp_all
  finally show ?thesis .
qed

text \<open>
  Claim C5. Let \<open>n\<close> be a generator built by \<open>NewNodeWithConfig\<close>, in a later state with
  \<open>0 \<le> step \<le> stepMask\<close>, and \<open>1 \<le> count \<le> stepMask\<close>. \<open>GenerateBatch(count)\<close> waits exactly when
  the clock sample \<open>now\<close> equals \<open>time\<close> and \<open>step + count > stepMask\<close>; it then takes the first
  sample \<open>t\<close> after \<open>time\<close> and starts the steps at 0 (and does not return when no sample is
  later). Otherwise \<open>t\<close> is \<open>now\<close>, and the steps start at \<open>step\<close> when \<open>now = time\<close> and at 0
  when not. It returns exactly \<open>count\<close> identifiers; the identifier at index \<open>i\<close> is
  \<open>(t << timeShift) | (node << nodeShift) | (s + i)\<close>: its step field is \<open>s + i\<close>, within
  \<open>[0, stepMask]\<close>, its node field is the generator's node, and its timestamp field is that of
  the first identifier, so all of the batch lie in the one millisecond \<open>t\<close>. Afterwards \<open>time\<close>
  is \<open>t\<close> and \<open>step\<close> is \<open>s + count\<close>, again within \<open>[0, stepMask]\<close>.
\<close>

theorem GenerateBatch_contract:
  assumes cfg: "NewNodeWithConfig cfg = Inr n0"
    and n: "n = n0\<lparr>time := tm, step := st\<rparr>"
    and st: "0 \<le>s st" "st \<le>s stepMask n"
    and count: "0 <s count" "count \<le>s stepMask n"
    and wait: "wait \<longleftrightarrow> now = tm \<and> stepMask n <s st + count"
    and s: "s = (if now = tm \<and> \<not> wait then st else 0)"
  shows "\<exists>t ids.
    (case GenerateBatch n count (now # rest) of
       None \<Rightarrow> wait \<and> dropWhile (\<lambda>x. x \<le>s tm) rest = []
     | Some (r, n', rest') \<Rightarrow>
         r = Inr ids \<and> n' = n\<lparr>step := s + count, time := t\<rparr>
         \<and> 0 \<le>s step n' \<and> step n' \<le>s stepMask n'
         \<and> (if wait then dropWhile (\<lambda>x. x \<le>s tm) rest = t # rest' \<and> tm <s t
             else t = now \<and> rest' = rest)
         \<and> length ids = nat (sint count)
         \<and> (\<forall>i < nat (sint count).
               ids ! i = push_bit (unat (timeShift n)) t OR push_bit (unat (nodeShift n)) (node n)
                           OR (s + of_nat i)
               \<and> Step (ids ! i) n = s + of_nat i
               \<and> 0 \<le>s Step (ids ! i) n \<and> Step (ids ! i) n \<le>s stepMask n
               \<and> NodeID (ids ! i) n = node n
               \<and> Time (ids ! i) n e = Time (ids ! 0) n e))"
proof -
  let ?nb = "unat (NodeBits cfg)" and ?sb = "unat (StepBits cfg)"
  define k where "k = nat (sint count)"
  define pack where "pack t i = push_bit (unat (timeShift n)) t
      OR push_bit (unat (nodeShift n)) (node n) OR (s + of_nat i)" for t i
  have l: "layout n ?nb ?sb"
    using NewNodeWithConfig_layout(1) [OF cfg] by (simp add: layout_def n)
  then have sb: "?sb < 63" and sm: "stepMask n = mask ?sb" by (simp_all add: layout_def)
  have msb: "sint (mask ?sb :: int64) = 2 ^ ?sb - 1" using sb by (rule sint_mask_small)
  have p62: "(2 :: int) ^ ?sb \<le> 2 ^ 22"
    using l by (intro power_increasing) (simp_all add: layout_def)
  have kc: "of_nat k = count" unfolding k_def using count(1) by (rule of_nat_nat_sint)
  have c0: "0 < sint count" and c1: "sint count \<le> 2 ^ ?sb - 1"
    using count by (simp_all add: word_sless_alt word_sle_eq sm msb)
  have s0: "0 \<le> sint st" and s1: "sint st \<le> 2 ^ ?sb - 1"
    using st by (simp_all add: word_sle_eq sm msb)
  have sum: "sint (st + count) = sint st + sint count"
    using s0 s1 c0 c1 p62 by (intro sint_small_sum) simp_all
  have nowait: "sint st + sint count \<le> 2 ^ ?sb - 1" if "now = tm" "\<not> wait"
    using that wait by (simp add: word_sless_alt sm msb sum)
  have "int (unat s) + int k \<le> 2 ^ ?sb - 1"
  proof (cases "now = tm \<and> \<not> wait")
    case True
    then show ?thesis using nowait c0 sint_nonneg_uint [OF s0] by (simp add: s k_def)
  next
    case False
    then have "s = 0" by (auto simp: s)
    then show ?thesis using c0 c1 by (simp add: k_def)
  qed
  then have "int (unat s + k) < 2 ^ ?sb" by simp
  then have bound: "unat s + k < 2 ^ ?sb"
    by (metis of_nat_less_iff of_nat_numeral of_nat_power)
  have loop: "batch_loop k t (n\<lparr>step := s, time := t\<rparr>)
      = (map (pack t) [0..<k], n\<lparr>step := s + count, time := t\<rparr>)" for t
    by (simp add: batch_loop_eq kc pack_def)
  have fields: "map (pack t) [0..<k] ! i = pack t i
      \<and> Step (map (pack t) [0..<k] ! i) n = s + of_nat i
      \<and> 0 \<le>s s + of_nat i \<and> s + of_nat i \<le>s stepMask n
      \<and> NodeID (map (pack t) [0..<k] ! i) n = node n
      \<and> Time (map (pack t) [0..<k] ! i) n e = Time (map (pack t) [0..<k] ! 0) n e"
    if "i < k" for t i
  proof -
    have i: "unat s + i < 2 ^ ?sb" and z: "unat s + 0 < 2 ^ ?sb" using bound that by simp_all
    have k0: "0 < k" using that by simp
    note fi = packed_fields [OF l i, of "pack t i" t e, unfolded pack_def, OF refl]
    note f0 = packed_fields [OF l z, of "pack t 0" t e, unfolded pack_def, OF refl]
    show ?thesis
      using that k0 fi f0 by (simp add: pack_def)
  qed
  have "0 \<le>s s + of_nat k \<and> s + of_nat k \<le>s stepMask n"
    using packed_fields [OF l bound refl, of 0 0] by simp
  then have rng: "0 \<le>s s + count" "s + count \<le>s stepMask n" by (simp_all add: kc)
  have nargs: "\<not> count \<le>s 0" "\<not> stepMask n <s count"
    using count by (simp_all add: signed.not_le signed.not_less)
  have tmn: "time n = tm" and stn: "step n = st" by (simp_all add: n)
  show ?thesis
  proof (cases wait)
    case False
    have nst: "n\<lparr>time := now\<rparr> = n\<lparr>step := s, time := now\<rparr>" if "now = tm"
      using that False by (simp add: s n)
    have "GenerateBatch n count (now # rest)
        = Some (Inr (map (pack now) [0..<k]), n\<lparr>step := s + count, time := now\<rparr>, rest)"
    proof (cases "now = tm")
      case True
      then have "\<not> stepMask n <s step n + count" using False wait by (simp add: stn)
      then show ?thesis
        using True nargs loop [of now] nst [OF True]
        by (simp add: GenerateBatch_def tmn k_def [symmetric])
    next
      case neq: False
      then have "s = 0" by (simp add: s)
      then show ?thesis
        using neq nargs loop [of now]
        by (simp add: GenerateBatch_def tmn k_def [symmetric])
    qed
    then show ?thesis
      using False fields [of _ now] rng
      by (intro exI [of _ now] exI [of _ "map (pack now) [0..<k]"])
        (simp add: k_def [symmetric] pack_def)
  next
    case True
    then have w: "now = tm" "stepMask n <s step n + count" "s = 0"
      using wait by (simp_all add: s stn)
    have nle: "now \<le>s time n" using w(1) by (simp add: tmn)
    show ?thesis
    proof (cases "dropWhile (\<lambda>x. x \<le>s tm) rest")
      case Nil
      then have "GenerateBatch n count (now # rest) = None"
        using w nargs nle
        by (simp add: GenerateBatch_def tmn wait_clock_dropWhile del: dropWhile_eq_Nil_conv)
      then show ?thesis using True Nil by simp
    next
      case (Cons t rest')
      then have "t \<in> set (dropWhile (\<lambda>x. x \<le>s tm) rest)" by simp
      have "\<not> t \<le>s tm" using Cons by (metis hd_dropWhile list.sel(1) list.distinct(1))
      then have lt: "tm <s t" by (simp add: signed.not_le)
      have "GenerateBatch n count (now # rest)
          = Some (Inr (map (pack t) [0..<k]), n\<lparr>step := s + count, time := t\<rparr>, rest')"
        using w nargs nle Cons loop [of t]
        by (simp add: GenerateBatch_def tmn wait_clock_dropWhile k_def [symmetric])
      then show ?thesis
        using True Cons lt fields [of _ t] rng
        by (intro exI [of _ t] exI [of _ "map (pack t) [0..<k]"])
          (simp add: k_def [symmetric] pack_def)
    qed
  qed
qed

theorem GenerateBatch_contract_witness:
  "NewNodeWithConfig \<lparr>Epoch = 1700000000000, NodeBits = 10, StepBits = 12, Node = 5\<rparr> =
     Inr \<lparr>time = 0, node = 5, step = 0, nodeMax = 1023, nodeMask = 4190208,
          stepMask = 4095, timeShift = 22, nodeShift = 12\<rparr>
   \<and> GenerateBatch \<lparr>time = 7, node = 5, step = 4094, nodeMax = 1023, nodeMask = 4190208,
          stepMask = 4095, timeShift = 22, nodeShift = 12\<rparr> 3 [7, 7, 6, 8, 9] =
       Some (Inr [33574912, 33574913, 33574914],
             \<lparr>time = 8, node = 5, step = 3, nodeMax = 1023, nodeMask = 4190208,
          stepMask = 4095, timeShift = 22, nodeShift = 12\<rparr>, [9])
   \<and> (\<exists>t ids.
       (case GenerateBatch 
          \<lparr>time = 7, node = 5, step = 4094, nodeMax = 1023, nodeMask = 4190208,
          stepMask = 4095, timeShift = 22, nodeShift = 12\<rparr> 3 [7, 7, 6, 8, 9] of
          None \<Rightarrow> True \<and> dropWhile (\<lambda>x. x \<le>s 7) [7, 6, 8, 9 :: int64] = []
        | Some (r, n', rest') \<Rightarrow>
            r = Inr ids \<and> n' = 
          \<lparr>time = 7, node = 5, step = 4094, nodeMax = 1023, nodeMask = 4190208,
          stepMask = 4095, timeShift = 22, nodeShift = 12\<rparr>\<lparr>step := 0 + 3, time := t\<rparr>
            \<and> 0 \<le>s step n' \<and> step n' \<le>s stepMask n'
            \<and> (if True then dropWhile (\<lambda>x. x \<le>s 7) [7, 6, 8, 9] = t # rest' \<and> 7 <s t
                else t = 7 \<and> rest' = [7, 6, 8, 9])
            \<and> length ids = nat (sint (3 :: int64))
            \<and> (\<forall>i < nat (sint (3 :: int64)).
                  ids ! i = push_bit (unat (timeShift 
          \<lparr>time = 7, node = 5, step = 4094, nodeMax = 1023, nodeMask = 4190208,
          stepMask = 4095, timeShift = 22, nodeShift = 12\<rparr>)) t OR push_bit (unat (nodeShift 
          \<lparr>time = 7, node = 5, step = 4094, nodeMax = 1023, nodeMask = 4190208,
          stepMask = 4095, timeShift = 22, nodeShift = 12\<rparr>)) (node 
          \<lparr>time = 7, node = 5, step = 4094, nodeMax = 1023, nodeMask = 4190208,
          stepMask = 4095, timeShift = 22, nodeShift = 12\<rparr>)
                              OR (0 + of_nat i)
                  \<and> Step (ids ! i) 
          \<lparr>time = 7, node = 5, step = 4094, nodeMax = 1023, nodeMask = 4190208,
          stepMask = 4095, timeShift = 22, nodeShift = 12\<rparr> = 0 + of_nat i
                  \<and> 0 \<le>s Step (ids ! i) 
          \<lparr>time = 7, node = 5, step = 4094, nodeMax = 1023, nodeMask = 4190208,
          stepMask = 4095, timeShift = 22, nodeShift = 12\<rparr> \<and> Step (ids ! i) 
          \<lparr>time = 7, node = 5, step = 4094, nodeMax = 1023, nodeMask = 4190208,
          stepMask = 4095, timeShift = 22, nodeShift = 12\<rparr> \<le>s stepMask 
          \<lparr>time = 7, node = 5, step = 4094, nodeMax = 1023, nodeMask = 4190208,
          stepMask = 4095, timeShift = 22, nodeShift = 12\<rparr>
                  \<and> NodeID (ids ! i) 
          \<lparr>time = 7, node = 5, step = 4094, nodeMax = 1023, nodeMask = 4190208,
          stepMask = 4095, timeShift = 22, nodeShift = 12\<rparr> = node 
          \<lparr>time = 7, node = 5, step = 4094, nodeMax = 1023, nodeMask = 4190208,
          stepMask = 4095, timeShift = 22, nodeShift = 12\<rparr>
                  \<and> Time (ids ! i) 
          \<lparr>time = 7, node = 5, step = 4094, nodeMax = 1023, nodeMask = 4190208,
          stepMask = 4095, timeShift = 22, nodeShift = 12\<rparr> 0 = Time (ids ! 0) 
          \<lparr>time = 7, node = 5, step = 4094, nodeMax = 1023, nodeMask = 4190208,
          stepMask = 4095, timeShift = 22, nodeShift = 12\<rparr> 0)))"
proof -
  have a: "NewNodeWithConfig \<lparr>Epoch = 1700000000000, NodeBits = 10, StepBits = 12, Node = 5\<rparr> =
     Inr \<lparr>time = 0, node = 5, step = 0, nodeMax = 1023, nodeMask = 4190208,
          stepMask = 4095, timeShift = 22, nodeShift = 12\<rparr>"
    by (simp add: NewNodeWithConfig_def MaxNodeBits_def MaxStepBits_def Let_def
        mask_eq_exp_minus_1 word_sless_alt)
  have b: "\<lparr>time = 7, node = 5, step = 4094, nodeMax = 1023, nodeMask = 4190208,
          stepMask = 4095, timeShift = 22, nodeShift = 12\<rparr>
        = \<lparr>time = 0, node = 5, step = 0, nodeMax = 1023, nodeMask = 4190208,
          stepMask = 4095, timeShift = 22, nodeShift = (12 :: uint8)\<rparr>\<lparr>time := 7, step := 4094\<rparr>"
    by simp
  have c: "(0 :: int64) \<le>s 4094" by (simp add: word_sle_eq)
  have d: "(4094 :: int64) \<le>s stepMask \<lparr>time = 7, node = 5, step = 4094, nodeMax = 1023, nodeMask = 4190208,
          stepMask = 4095, timeShift = 22, nodeShift = 12\<rparr>" by (simp add: word_sle_eq)
  have e: "(0 :: int64) <s 3" by (simp add: word_sless_alt)
  have f: "(3 :: int64) \<le>s stepMask \<lparr>time = 7, node = 5, step = 4094, nodeMax = 1023, nodeMask = 4190208,
          stepMask = 4095, timeShift = 22, nodeShift = 12\<rparr>" by (simp add: word_sle_eq)
  have g: "True \<longleftrightarrow> (7 :: int64) = 7 \<and> stepMask \<lparr>time = 7, node = 5, step = 4094, nodeMax = 1023, nodeMask = 4190208,
          stepMask = 4095, timeShift = 22, nodeShift = 12\<rparr> <s 4094 + 3"
    by (simp add: word_sless_alt)
  have h: "(0 :: int64) = (if (7 :: int64) = 7 \<and> \<not> True then 4094 else 0)" by simp
  have r: "GenerateBatch \<lparr>time = 7, node = 5, step = 4094, nodeMax = 1023, nodeMask = 4190208,
          stepMask = 4095, timeShift = 22, nodeShift = 12\<rparr> 3 [7, 7, 6, 8, 9] =
       Some (Inr [33574912, 33574913, 33574914],
             \<lparr>time = 8, node = 5, step = 3, nodeMax = 1023, nodeMask = 4190208,
          stepMask = 4095, timeShift = 22, nodeShift = 12\<rparr>, [9])"
    by (simp add: GenerateBatch_def word_sle_eq word_sless_alt numeral_3_eq_3)
  show ?thesis
    by (intro conjI a r GenerateBatch_contract [OF a b c d e f g h])
qed

section \<open>Order of identifiers\<close>












lemma layout_update [simp]:
  "layout (n\<lparr>step := s\<rparr>) nb sb = layout n nb sb"
  "layout (n\<lparr>time := t\<rparr>) nb sb = layout n nb sb"
  by (simp_all add: layout_def)




section \<open>Monotonicity\<close>




section \<open>Uniqueness across Generate and GenerateBatch\<close>

text \<open>
  Claim C2. \<open>Generate\<close> leaves in \<open>step\<close> the step it has just issued, \<open>GenerateBatch\<close> the step
  after the last one it issued. So within one millisecond (clock samples 1 and 1, default
  layout, node 5) a \<open>GenerateBatch(1)\<close> after a \<open>Generate()\<close> starts at the step that \<open>Generate\<close>
  issued and returns the same identifier 4214784 again, and a \<open>Generate()\<close> after a
  \<open>GenerateBatch(2)\<close>, which issued the steps 0 and 1, issues the step 3 and leaves out 2.
\<close>

theorem Generate_GenerateBatch_same_identifier:
  "NewNode 5 = Inr \<lparr>time = 0, node = 5, step = 0, nodeMax = 1023, nodeMask = 4190208,
          stepMask = 4095, timeShift = 22, nodeShift = 12\<rparr>
   \<and> Generate \<lparr>time = 0, node = 5, step = 0, nodeMax = 1023, nodeMask = 4190208,
          stepMask = 4095, timeShift = 22, nodeShift = 12\<rparr> [1, 1] =
       Some (4214784, \<lparr>time = 1, node = 5, step = 0, nodeMax = 1023, nodeMask = 4190208,
          stepMask = 4095, timeShift = 22, nodeShift = 12\<rparr>, [1])
   \<and> GenerateBatch \<lparr>time = 1, node = 5, step = 0, nodeMax = 1023, nodeMask = 4190208,
          stepMask = 4095, timeShift = 22, nodeShift = 12\<rparr> 1 [1] =
       Some (Inr [4214784], \<lparr>time = 1, node = 5, step = 1, nodeMax = 1023, nodeMask = 4190208,
          stepMask = 4095, timeShift = 22, nodeShift = 12\<rparr>, [])
   \<and> GenerateBatch \<lparr>time = 0, node = 5, step = 0, nodeMax = 1023, nodeMask = 4190208,
          stepMask = 4095, timeShift = 22, nodeShift = 12\<rparr> 2 [1, 1] =
       Some (Inr [4214784, 4214785], \<lparr>time = 1, node = 5, step = 2, nodeMax = 1023, nodeMask = 4190208,
          stepMask = 4095, timeShift = 22, nodeShift = 12\<rparr>, [1])
   \<and> Generate \<lparr>time = 1, node = 5, step = 2, nodeMax = 1023, nodeMask = 4190208,
          stepMask = 4095, timeShift = 22, nodeShift = 12\<rparr> [1] =
       Some (4214787, \<lparr>time = 1, node = 5, step = 3, nodeMax = 1023, nodeMask = 4190208,
          stepMask = 4095, timeShift = 22, nodeShift = 12\<rparr>, [])"
proof -
  have a: "NewNode 5 = Inr \<lparr>time = 0, node = 5, step = 0, nodeMax = 1023, nodeMask = 4190208,
          stepMask = 4095, timeShift = 22, nodeShift = 12\<rparr>"
    by (simp add: NewNode_def NewNodeWithConfig_def DefaultNodeBits_def DefaultStepBits_def
        MaxNodeBits_def MaxStepBits_def Let_def mask_eq_exp_minus_1 word_sless_alt)
  have b: "Generate \<lparr>time = 0, node = 5, step = 0, nodeMax = 1023, nodeMask = 4190208,
          stepMask = 4095, timeShift = 22, nodeShift = 12\<rparr> [1, 1] =
       Some (4214784, \<lparr>time = 1, node = 5, step = 0, nodeMax = 1023, nodeMask = 4190208,
          stepMask = 4095, timeShift = 22, nodeShift = 12\<rparr>, [1])"
    by (simp add: Generate_def)
  have c: "GenerateBatch \<lparr>time = 1, node = 5, step = 0, nodeMax = 1023, nodeMask = 4190208,
          stepMask = 4095, timeShift = 22, nodeShift = 12\<rparr> 1 [1] =
       Some (Inr [4214784], \<lparr>time = 1, node = 5, step = 1, nodeMax = 1023, nodeMask = 4190208,
          stepMask = 4095, timeShift = 22, nodeShift = 12\<rparr>, [])"
    by (simp add: GenerateBatch_def word_sle_eq word_sless_alt)
  have d: "GenerateBatch \<lparr>time = 0, node = 5, step = 0, nodeMax = 1023, nodeMask = 4190208,
          stepMask = 4095, timeShift = 22, nodeShift = 12\<rparr> 2 [1, 1] =
       Some (Inr [4214784, 4214785], \<lparr>time = 1, node = 5, step = 2, nodeMax = 1023, nodeMask = 4190208,
          stepMask = 4095, timeShift = 22, nodeShift = 12\<rparr>, [1])"
    by (simp add: GenerateBatch_def word_sle_eq word_sless_alt batch_loop_eq upt_rec)
  have e: "Generate \<lparr>time = 1, node = 5, step = 2, nodeMax = 1023, nodeMask = 4190208,
          stepMask = 4095, timeShift = 22, nodeShift = 12\<rparr> [1] =
       Some (4214787, \<lparr>time = 1, node = 5, step = 3, nodeMax = 1023, nodeMask = 4190208,
          stepMask = 4095, timeShift = 22, nodeShift = 12\<rparr>, [])"
    by (simp add: Generate_def)
  show ?thesis by (intro conjI a b c d e)
qed

section \<open>Round trips of Base32 and Base58\<close>

lemma sint_word_of_int_eq:
  "- (2 ^ 63) \<le> k \<Longrightarrow> k < 2 ^ 63 \<Longrightarrow> sint (word_of_int k :: int64) = k"
  by (simp add: sint_sbintrunc' signed_take_bit_int_eq_self)

lemma sint_go_div_pos:
  assumes "0 <s f" and "0 <s b"
  shows "sint (go_div f b) = sint f div sint b"
proof -
  have f: "0 < sint f" and b: "0 < sint b" using assms by (simp_all add: word_sless_alt)
  have "sint f sdiv sint b = sint f div sint b"
    using f b by (simp add: signed_divide_int_def sgn_if)
  moreover have "0 \<le> sint f div sint b" using f b by (simp add: pos_imp_zdiv_nonneg_iff)
  moreover have "sint f div sint b \<le> sint f" using f b
    by (smt (verit) zdiv_mono2 div_by_1)
  moreover have "sint f < 2 ^ 63" using sint_lt [of f] by simp
  ultimately show ?thesis
    unfolding go_div_def by (simp add: sint_word_of_int_eq)
qed

lemma sint_go_rem_pos:
  assumes "0 <s f" and "0 <s b"
  shows "sint (go_rem f b) = sint f mod sint b"
proof -
  have f: "0 < sint f" and b: "0 < sint b" using assms by (simp_all add: word_sless_alt)
  have "sint f smod sint b = sint f mod sint b"
    using f b by (simp add: signed_modulo_int_def sgn_if)
  moreover have "0 \<le> sint f mod sint b" using b by simp
  moreover have "sint f mod sint b < sint b" using b by simp
  moreover have "sint b < 2 ^ 63" using sint_lt [of b] by simp
  ultimately show ?thesis
    unfolding go_rem_def by (simp add: sint_word_of_int_eq)
qed

lemma go_div_mult_rem: "go_div f b * b + go_rem f b = f"
proof -
  have "go_div f b * b + go_rem f b = word_of_int (sint f sdiv sint b * sint b + sint f smod sint b)"
    by (simp add: go_div_def go_rem_def)
  also have "\<dots> = f" by (simp only: sdiv_mult_smod_eq) simp
  finally show ?thesis .
qed

lemma ucast_byte_of_nat:
  assumes "k < 256"
  shows "ucast (of_nat k :: byte) = (of_nat k :: int64)"
proof -
  have "take_bit 8 k = k" using assms by (simp add: take_bit_nat_eq_self)
  then show ?thesis by (simp add: unsigned_of_nat)
qed

lemma of_nat_index:
  assumes "k = nat (sint (r :: int64))" and "0 \<le> sint r"
  shows "(of_nat k :: int64) = r"
proof -
  have "int k = sint r" using assms by simp
  then have "(of_nat k :: int64) = word_of_int (sint r)" by (metis of_int_of_nat_eq)
  then show ?thesis by simp
qed

lemma ParseBase32_loop_snoc:
  "ParseBase32_loop (xs @ [c]) i =
     (case ParseBase32_loop xs i of
        (v, None) \<Rightarrow> ParseBase32_loop [c] v
      | (v, Some e) \<Rightarrow> (v, Some e))"
  by (induction xs arbitrary: i) simp_all

lemma ParseBase58_loop_snoc:
  "ParseBase58_loop (xs @ [c]) i =
     (case ParseBase58_loop xs i of
        (v, None) \<Rightarrow> ParseBase58_loop [c] v
      | (v, Some e) \<Rightarrow> (v, Some e))"
  by (induction xs arbitrary: i) simp_all

lemma ParseBase32_digit:
  assumes "0 <s f"
  shows "ParseBase32_loop [encodeBase32Map ! nat (sint (go_rem f 32))] (go_div f 32) = (f, None)"
proof -
  define k where "k = nat (sint (go_rem f 32))"
  have b: "(0 :: int64) <s 32" by (simp add: word_sless_alt)
  have r: "sint (go_rem f 32) = sint f mod 32" using sint_go_rem_pos [OF assms b] by simp
  then have r0: "0 \<le> sint (go_rem f 32)" and r1: "sint (go_rem f 32) < 32" by simp_all
  then have i: "k < 32" by (simp add: k_def)
  have d: "decodeBase32Map (encodeBase32Map ! k) = of_nat k"
    using i by (rule decodeBase32Map_nth)
  have nf: "decodeBase32Map (encodeBase32Map ! k) \<noteq> 0xFF"
    using i by (simp add: decodeBase32Map_FF length_encodeBase32Map)
  have "ucast (of_nat k :: byte) = (of_nat k :: int64)" using i by (intro ucast_byte_of_nat) simp
  also have "\<dots> = go_rem f 32" using k_def r0 by (rule of_nat_index)
  finally have u: "ucast (of_nat k :: byte) = go_rem f 32" .
  have "ParseBase32_loop [encodeBase32Map ! k] (go_div f 32) = (f, None)"
    using nf go_div_mult_rem [of f 32] by (simp add: d u)
  then show ?thesis by (simp only: k_def)
qed

lemma ParseBase58_digit:
  assumes "0 <s f"
  shows "ParseBase58_loop [encodeBase58Map ! nat (sint (go_rem f 58))] (go_div f 58) = (f, None)"
proof -
  define k where "k = nat (sint (go_rem f 58))"
  have b: "(0 :: int64) <s 58" by (simp add: word_sless_alt)
  have r: "sint (go_rem f 58) = sint f mod 58" using sint_go_rem_pos [OF assms b] by simp
  then have r0: "0 \<le> sint (go_rem f 58)" and r1: "sint (go_rem f 58) < 58" by simp_all
  then have i: "k < 58" by (simp add: k_def)
  have d: "decodeBase58Map (encodeBase58Map ! k) = of_nat k"
    using i by (rule decodeBase58Map_nth)
  have nf: "decodeBase58Map (encodeBase58Map ! k) \<noteq> 0xFF"
    using i by (simp add: decodeBase58Map_FF length_encodeBase58Map)
  have "ucast (of_nat k :: byte) = (of_nat k :: int64)" using i by (intro ucast_byte_of_nat) simp
  also have "\<dots> = go_rem f 58" using k_def r0 by (rule of_nat_index)
  finally have u: "ucast (of_nat k :: byte) = go_rem f 58" .
  have "ParseBase58_loop [encodeBase58Map ! k] (go_div f 58) = (f, None)"
    using nf go_div_mult_rem [of f 58] by (simp add: d u)
  then show ?thesis by (simp only: k_def)
qed

lemma base32_roundtrip_loop:
  "ParseBase32_loop (rev (base32_loop f [])) 0 = (if 0 <s f then f else 0, None)"
proof (induction "nat (sint f)" arbitrary: f rule: less_induct)
  case less
  show ?case
  proof (cases "0 <s f")
    case False
    then show ?thesis by (simp add: base32_loop_nonpos)
  next
    case True
    have b: "(0 :: int64) <s 32" by (simp add: word_sless_alt)
    have f: "0 < sint f" using True by (simp add: word_sless_alt)
    have q: "sint (go_div f 32) = sint f div 32" using sint_go_div_pos [OF True b] by simp
    then have "nat (sint (go_div f 32)) < nat (sint f)" using f by simp
    then have ih: "ParseBase32_loop (rev (base32_loop (go_div f 32) [])) 0
        = (if 0 <s go_div f 32 then go_div f 32 else 0, None)"
      by (rule less.hyps)
    have "0 \<le>s go_div f 32" using q f by (simp add: word_sle_eq)
    then have "go_div f 32 = 0" if "\<not> 0 <s go_div f 32"
      using that sle_0_cases by blast
    then have "ParseBase32_loop (rev (base32_loop (go_div f 32) [])) 0 = (go_div f 32, None)"
      using ih by auto
    then show ?thesis
      using True ParseBase32_digit [OF True]
      by (simp add: base32_loop_pos ParseBase32_loop_snoc)
  qed
qed

lemma base58_roundtrip_loop:
  "ParseBase58_loop (rev (base58_loop f [])) 0 = (if 0 <s f then f else 0, None)"
proof (induction "nat (sint f)" arbitrary: f rule: less_induct)
  case less
  show ?case
  proof (cases "0 <s f")
    case False
    then show ?thesis by (simp add: base58_loop_nonpos)
  next
    case True
    have b: "(0 :: int64) <s 58" by (simp add: word_sless_alt)
    have f: "0 < sint f" using True by (simp add: word_sless_alt)
    have q: "sint (go_div f 58) = sint f div 58" using sint_go_div_pos [OF True b] by simp
    then have "nat (sint (go_div f 58)) < nat (sint f)" using f by simp
    then have ih: "ParseBase58_loop (rev (base58_loop (go_div f 58) [])) 0
        = (if 0 <s go_div f 58 then go_div f 58 else 0, None)"
      by (rule less.hyps)
    have "0 \<le>s go_div f 58" using q f by (simp add: word_sle_eq)
    then have "go_div f 58 = 0" if "\<not> 0 <s go_div f 58"
      using that sle_0_cases by blast
    then have "ParseBase58_loop (rev (base58_loop (go_div f 58) [])) 0 = (go_div f 58, None)"
      using ih by auto
    then show ?thesis
      using True ParseBase58_digit [OF True]
      by (simp add: base58_loop_pos ParseBase58_loop_snoc)
  qed
qed

lemma Base32_roundtrip: "0 \<le>s f \<Longrightarrow> ParseBase32 (Base32 f) = (f, None)"
proof -
  assume "0 \<le>s f"
  then consider "f = 0" | "0 <s f" using sle_0_cases by blast
  then show ?thesis
  proof cases
    case 1
    have "decodeBase32Map (encodeBase32Map ! 0) = of_nat 0"
      by (rule decodeBase32Map_nth) simp
    then show ?thesis using 1 by (simp add: ParseBase32_def Base32_def)
  next
    case 2
    then have "f \<noteq> 0" by auto
    then show ?thesis using 2 by (simp add: ParseBase32_def Base32_def base32_roundtrip_loop)
  qed
qed

lemma Base58_roundtrip: "0 \<le>s f \<Longrightarrow> ParseBase58 (Base58 f) = (f, None)"
proof -
  assume "0 \<le>s f"
  then consider "f = 0" | "0 <s f" using sle_0_cases by blast
  then show ?thesis
  proof cases
    case 1
    have "decodeBase58Map (encodeBase58Map ! 0) = of_nat 0"
      by (rule decodeBase58Map_nth) simp
    then show ?thesis using 1 by (simp add: ParseBase58_def Base58_def)
  next
    case 2
    then have "f \<noteq> 0" by auto
    then show ?thesis using 2 by (simp add: ParseBase58_def Base58_def base58_roundtrip_loop)
  qed
qed

section \<open>Round trip of Base64\<close>

lemma distinct_encodeURL: "distinct encodeURL"
  by (simp add: encodeURL_def)

lemma length_encodeURL: "length encodeURL = 64"
  by (simp add: encodeURL_def)

lemma sextet_index: "unat ((v :: uint64) AND 0x3F) < 64"
proof -
  have "v AND 0x3F \<le> 0x3F" by (rule word_and_le1)
  then show ?thesis by (simp add: word_le_nat_alt)
qed

lemma decodeURL_sextet:
  "decodeURL (encodeURL ! unat ((v :: uint64) AND 0x3F)) = ucast (v AND 0x3F)"
  "decodeURL (encodeURL ! unat ((v :: uint64) AND 0x3F)) \<noteq> 0xFF"
proof -
  let ?k = "unat (v AND 0x3F)"
  have k: "?k < 64" by (rule sextet_index)
  have "decodeURL (encodeURL ! ?k) = of_nat ?k"
    using k by (simp add: decodeURL_def initDecodeMap_nth distinct_encodeURL length_encodeURL)
  then show "decodeURL (encodeURL ! ?k) = ucast (v AND 0x3F)" by simp
  show "decodeURL (encodeURL ! ?k) \<noteq> 0xFF"
    using k initDecodeMap_in [OF distinct_encodeURL, of "encodeURL ! ?k"]
    by (simp add: decodeURL_def length_encodeURL)
qed

lemma quantum_4:
  fixes s0 s1 s2 :: byte and val :: uint64
  assumes val_def: "val = push_bit 16 (ucast s0) OR push_bit 8 (ucast s1) OR ucast s2"
  shows "quantum [ucast (drop_bit 18 val AND 0x3F), ucast (drop_bit 12 val AND 0x3F),
                  ucast (drop_bit 6 val AND 0x3F), ucast (val AND 0x3F)] = [s0, s1, s2]"
proof -
  define v' :: uint64 where "v' = push_bit 18 (ucast (ucast (drop_bit 18 val AND 0x3F) :: byte))
        OR push_bit 12 (ucast (ucast (drop_bit 12 val AND 0x3F) :: byte))
        OR push_bit 6 (ucast (ucast (drop_bit 6 val AND 0x3F) :: byte))
        OR ucast (ucast (val AND 0x3F) :: byte)"
  have m: "(0x3F :: uint64) = mask 6" by (simp add: mask_eq_exp_minus_1)
  have sd: "Suc (Suc (n - 2)) = n" if "2 \<le> n" for n using that by simp
  have a: "ucast (drop_bit 16 v') = s0"
    unfolding v'_def val_def m
    by (rule bit_word_eqI) (auto simp: bit_simps sd dest: bit_imp_le_length)
  have b: "ucast (drop_bit 8 v') = s1"
    unfolding v'_def val_def m
    by (rule bit_word_eqI) (auto simp: bit_simps sd dest: bit_imp_le_length)
  have c: "ucast v' = s2"
    unfolding v'_def val_def m
    by (rule bit_word_eqI) (auto simp: bit_simps sd dest: bit_imp_le_length)
  have "quantum [ucast (drop_bit 18 val AND 0x3F), ucast (drop_bit 12 val AND 0x3F),
                  ucast (drop_bit 6 val AND 0x3F), ucast (val AND 0x3F)]
      = [ucast (drop_bit 16 v'), ucast (drop_bit 8 v'), ucast v']"
    by (simp add: quantum_def v'_def)
  then show ?thesis by (simp only: a b c)
qed

lemma quantum_3:
  fixes s0 s1 :: byte and val :: uint64
  assumes val_def: "val = push_bit 16 (ucast s0) OR push_bit 8 (ucast s1)"
  shows "quantum [ucast (drop_bit 18 val AND 0x3F), ucast (drop_bit 12 val AND 0x3F),
                  ucast (drop_bit 6 val AND 0x3F)] = [s0, s1]"
proof -
  define v' :: uint64 where "v' = push_bit 18 (ucast (ucast (drop_bit 18 val AND 0x3F) :: byte))
        OR push_bit 12 (ucast (ucast (drop_bit 12 val AND 0x3F) :: byte))
        OR push_bit 6 (ucast (ucast (drop_bit 6 val AND 0x3F) :: byte))
        OR ucast (0 :: byte)"
  have m: "(0x3F :: uint64) = mask 6" by (simp add: mask_eq_exp_minus_1)
  have sd: "Suc (Suc (n - 2)) = n" if "2 \<le> n" for n using that by simp
  have a: "ucast (drop_bit 16 v') = s0"
    unfolding v'_def val_def m
    by (rule bit_word_eqI) (auto simp: bit_simps sd dest: bit_imp_le_length)
  have b: "ucast (drop_bit 8 v') = s1"
    unfolding v'_def val_def m
    by (rule bit_word_eqI) (auto simp: bit_simps sd dest: bit_imp_le_length)
  have "quantum [ucast (drop_bit 18 val AND 0x3F), ucast (drop_bit 12 val AND 0x3F),
                  ucast (drop_bit 6 val AND 0x3F)]
      = [ucast (drop_bit 16 v'), ucast (drop_bit 8 v')]"
    by (simp add: quantum_def v'_def)
  then show ?thesis by (simp only: a b)
qed

lemma quantum_2:
  fixes s0 :: byte and val :: uint64
  assumes val_def: "val = push_bit 16 (ucast s0)"
  shows "quantum [ucast (drop_bit 18 val AND 0x3F), ucast (drop_bit 12 val AND 0x3F)] = [s0]"
proof -
  define v' :: uint64 where "v' = push_bit 18 (ucast (ucast (drop_bit 18 val AND 0x3F) :: byte))
        OR push_bit 12 (ucast (ucast (drop_bit 12 val AND 0x3F) :: byte))
        OR push_bit 6 (ucast (0 :: byte))
        OR ucast (0 :: byte)"
  have m: "(0x3F :: uint64) = mask 6" by (simp add: mask_eq_exp_minus_1)
  have sd: "Suc (Suc (n - 2)) = n" if "2 \<le> n" for n using that by simp
  have a: "ucast (drop_bit 16 v') = s0"
    unfolding v'_def val_def m
    by (rule bit_word_eqI) (auto simp: bit_simps sd dest: bit_imp_le_length)
  have "quantum [ucast (drop_bit 18 val AND 0x3F), ucast (drop_bit 12 val AND 0x3F)]
      = [ucast (drop_bit 16 v')]"
    by (simp add: quantum_def v'_def)
  then show ?thesis by (simp only: a)
qed

lemma decode_loop_step:
  "decode_loop (encodeURL ! unat ((v :: uint64) AND 0x3F) # src) si dbuf dst =
     (if length dbuf = 3
      then decode_loop src (si + 1) [] (dst @ quantum (dbuf @ [ucast (v AND 0x3F)]))
      else decode_loop src (si + 1) (dbuf @ [ucast (v AND 0x3F)]) dst)"
  using decodeURL_sextet [of v] by (simp add: Let_def)

lemma decode_encode: "decode_loop (EncodeToString bs) si [] dst = Inr (dst @ bs)"
proof (induction bs arbitrary: si dst rule: EncodeToString.induct)
  case (1 s0 s1 s2 src)
  define val :: uint64 where "val = push_bit 16 (ucast s0) OR push_bit 8 (ucast s1) OR ucast s2"
  have e: "EncodeToString (s0 # s1 # s2 # src) =
      encodeURL ! unat (drop_bit 18 val AND 0x3F) # encodeURL ! unat (drop_bit 12 val AND 0x3F) #
      encodeURL ! unat (drop_bit 6 val AND 0x3F) # encodeURL ! unat (val AND 0x3F) #
      EncodeToString src"
    by (simp add: val_def Let_def)
  have "decode_loop (EncodeToString (s0 # s1 # s2 # src)) si [] dst
      = decode_loop (EncodeToString src) (si + 1 + 1 + 1 + 1) []
          (dst @ quantum [ucast (drop_bit 18 val AND 0x3F), ucast (drop_bit 12 val AND 0x3F),
                          ucast (drop_bit 6 val AND 0x3F), ucast (val AND 0x3F)])"
    unfolding e by (simp add: decode_loop_step del: decode_loop.simps)
  also have "\<dots> = Inr ((dst @ [s0, s1, s2]) @ src)"
    unfolding quantum_4 [OF val_def] by (rule "1.IH" [OF refl])
  finally show ?case by simp
next
  case (2 s0 s1)
  define val :: uint64 where "val = push_bit 16 (ucast s0) OR push_bit 8 (ucast s1)"
  have e: "EncodeToString [s0, s1] =
      [encodeURL ! unat (drop_bit 18 val AND 0x3F), encodeURL ! unat (drop_bit 12 val AND 0x3F),
       encodeURL ! unat (drop_bit 6 val AND 0x3F)]"
    by (simp add: val_def Let_def)
  have "decode_loop (EncodeToString [s0, s1]) si [] dst
      = Inr (dst @ quantum [ucast (drop_bit 18 val AND 0x3F), ucast (drop_bit 12 val AND 0x3F),
                          ucast (drop_bit 6 val AND 0x3F)])"
    unfolding e by (simp add: decode_loop_step del: decode_loop.simps(2))
  then show ?case unfolding quantum_3 [OF val_def] by simp
next
  case (3 s0)
  define val :: uint64 where "val = push_bit 16 (ucast s0)"
  have e: "EncodeToString [s0] =
      [encodeURL ! unat (drop_bit 18 val AND 0x3F), encodeURL ! unat (drop_bit 12 val AND 0x3F)]"
    by (simp add: val_def Let_def)
  have "decode_loop (EncodeToString [s0]) si [] dst
      = Inr (dst @ quantum [ucast (drop_bit 18 val AND 0x3F), ucast (drop_bit 12 val AND 0x3F)])"
    unfolding e by (simp add: decode_loop_step del: decode_loop.simps(2))
  then show ?case unfolding quantum_2 [OF val_def] by simp
next
  case 4
  show ?case by simp
qed

lemma DecodeString_EncodeToString: "DecodeString (EncodeToString bs) = Inr bs"
  by (simp add: DecodeString_def decode_encode)

lemma fold_skip_zero_bytes:
  "fold (\<lambda>b i. push_bit 8 i OR ucast b) (dropWhile (\<lambda>b. b = 0) bs) (0 :: uint64)
   = fold (\<lambda>b i. push_bit 8 i OR ucast b) (bs :: byte list) 0"
  by (induction bs) simp_all

lemma byte_step_56:
  "push_bit 8 0 OR ucast (ucast (drop_bit 56 v) :: byte) = drop_bit 56 (v :: uint64)"
  by (rule bit_word_eqI) (auto simp: bit_simps dest: bit_imp_le_length)

lemma byte_step_48:
  "push_bit 8 (drop_bit 56 v) OR ucast (ucast (drop_bit 48 v) :: byte) = drop_bit 48 (v :: uint64)"
  by (rule bit_word_eqI) (auto simp: bit_simps)

lemma byte_step_40:
  "push_bit 8 (drop_bit 48 v) OR ucast (ucast (drop_bit 40 v) :: byte) = drop_bit 40 (v :: uint64)"
  by (rule bit_word_eqI) (auto simp: bit_simps)

lemma byte_step_32:
  "push_bit 8 (drop_bit 40 v) OR ucast (ucast (drop_bit 32 v) :: byte) = drop_bit 32 (v :: uint64)"
  by (rule bit_word_eqI) (auto simp: bit_simps)

lemma byte_step_24:
  "push_bit 8 (drop_bit 32 v) OR ucast (ucast (drop_bit 24 v) :: byte) = drop_bit 24 (v :: uint64)"
  by (rule bit_word_eqI) (auto simp: bit_simps)

lemma byte_step_16:
  "push_bit 8 (drop_bit 24 v) OR ucast (ucast (drop_bit 16 v) :: byte) = drop_bit 16 (v :: uint64)"
  by (rule bit_word_eqI) (auto simp: bit_simps)

lemma byte_step_8:
  "push_bit 8 (drop_bit 16 v) OR ucast (ucast (drop_bit 8 v) :: byte) = drop_bit 8 (v :: uint64)"
  by (rule bit_word_eqI) (auto simp: bit_simps)

lemma byte_step_0:
  "push_bit 8 (drop_bit 8 v) OR ucast (ucast v :: byte) = (v :: uint64)"
  by (rule bit_word_eqI) (auto simp: bit_simps)

lemma fold_PutUint64:
  "fold (\<lambda>b i. push_bit 8 i OR ucast b) (PutUint64 v) (0 :: uint64) = v"
  unfolding PutUint64_def fold_simps
  by (simp only: byte_step_56 byte_step_48 byte_step_40 byte_step_32 byte_step_24 byte_step_16 byte_step_8 byte_step_0)

lemma Base64_roundtrip: "ParseBase64 (Base64 f) = (f, None)"
  by (simp add: ParseBase64_def Base64_def DecodeString_EncodeToString
      fold_skip_zero_bytes fold_PutUint64)

section \<open>Round trips of the decimal and binary forms\<close>

declare formatBits_loop.simps [simp del]

lemma small_cases:
  assumes "k < (10 :: nat)"
  obtains "k = 0" | "k = 1" | "k = 2" | "k = 3" | "k = 4" | "k = 5" | "k = 6" | "k = 7" | "k = 8" | "k = 9"
  using assms by (auto simp: less_Suc_eq numeral_eq_Suc)

lemma digit_val_digits:
  assumes "k < 10"
  shows "digit_val (digits ! k) = Some k"
    and "digits ! k \<noteq> CHR ''-''" and "digits ! k \<noteq> CHR ''+''"
proof -
  from assms have "digit_val (digits ! k) = Some k \<and> digits ! k \<noteq> CHR ''-'' \<and> digits ! k \<noteq> CHR ''+''"
    by (cases rule: small_cases) (simp_all add: digits_def digit_val_def)
  then show "digit_val (digits ! k) = Some k"
    and "digits ! k \<noteq> CHR ''-''" and "digits ! k \<noteq> CHR ''+''"
    by simp_all
qed

lemma formatBits_loop_app: "formatBits_loop u b (a @ c) = formatBits_loop u b a @ c"
proof (induction u b a arbitrary: c rule: formatBits_loop.induct)
  case (1 u b a)
  show ?case
  proof (cases "2 \<le> b \<and> b \<le> u")
    case True
    have "formatBits_loop u b (a @ c)
        = formatBits_loop (u div b) b ((digits ! unat (u - u div b * b) # a) @ c)"
      using True by (subst formatBits_loop.simps) simp
    also have "\<dots> = formatBits_loop (u div b) b (digits ! unat (u - u div b * b) # a) @ c"
      using "1.IH" [OF True] .
    also have "\<dots> = formatBits_loop u b a @ c"
      using True by (subst (2) formatBits_loop.simps) simp
    finally show ?thesis .
  next
    case False
    then show ?thesis by (subst (1 2) formatBits_loop.simps) auto
  qed
qed

lemma formatBits_loop_rec:
  "2 \<le> b \<Longrightarrow> b \<le> u \<Longrightarrow>
   formatBits_loop u b [] = formatBits_loop (u div b) b [] @ [digits ! unat (u - u div b * b)]"
  using formatBits_loop_app [of "u div b" b "[]" "[digits ! unat (u - u div b * b)]"]
  by (subst formatBits_loop.simps) simp

lemma formatBits_loop_last: "\<not> b \<le> u \<Longrightarrow> formatBits_loop u b [] = [digits ! unat u]"
  by (subst formatBits_loop.simps) simp

lemma ParseUint_loop_snoc:
  "ParseUint_loop (xs @ [c]) base n =
     (case ParseUint_loop xs base n of
        (v, None) \<Rightarrow> ParseUint_loop [c] base v
      | (v, Some e) \<Rightarrow> (v, Some e))"
  by (induction xs arbitrary: n) (simp_all add: Let_def split: option.splits)

lemma ParseUint_digit:
  assumes "2 \<le> b" and "b \<le> 10"
  shows "ParseUint_loop [digits ! unat (u - u div of_nat b * of_nat b)] b (u div of_nat b) = (u, None)"
proof -
  define B :: uint64 where "B = of_nat b"
  define k where "k = unat (u mod B)"
  have uB: "unat B = b" using assms(2) by (simp add: B_def unat_of_nat)
  have r: "u - u div B * B = u mod B" by (rule minus_div_mult_eq_mod)
  have k: "k = unat u mod b" by (simp add: k_def unat_mod uB)
  then have kb: "k < b" using assms(1) by simp
  then have k10: "k < 10" using assms(2) by simp
  have ofk: "(of_nat k :: uint64) = u mod B" by (simp add: k_def)
  have q: "unat (u div B) = unat u div b" by (simp add: unat_div uB)
  have m: "unat (- 1 :: uint64) = 2 ^ 64 - 1"
    by (simp add: unsigned_minus_1_eq_mask mask_eq_exp_minus_1)
  have "unat ((- 1 :: uint64) div B) = (2 ^ 64 - 1) div b" by (simp add: unat_div uB m)
  moreover have "(2 ^ 64 - 1 :: nat) div b \<le> (2 ^ 64 - 1) div 2"
    using assms(1) by (intro div_le_mono2) simp_all
  ultimately have c: "unat ((- 1 :: uint64) div B + 1) = (2 ^ 64 - 1) div b + 1"
    by (simp add: unat_word_ariths)
  have "unat u \<le> 2 ^ 64 - 1" using unsigned_less [of u, where 'a = nat] by simp
  then have "unat u div b \<le> (2 ^ 64 - 1) div b" by (rule div_le_mono)
  then have cut: "\<not> (- 1) div B + 1 \<le> u div B"
    by (simp add: word_le_nat_alt c q)
  have "unat u div b * b \<le> unat u" by simp
  moreover have "unat u < 2 ^ 64" using unsigned_less [of u, where 'a = nat] by simp
  ultimately have "unat u div b * b < 2 ^ 64" by (rule le_less_trans)
  then have "unat (u div B) * unat B < 2 ^ LENGTH(64)" by (simp add: q uB)
  then have "unat (u div B * B) = unat (u div B) * unat B" by (rule iffD1 [OF unat_mult_lem])
  then have "unat (u div B * B) = unat u div b * b" by (simp only: q uB)
  then have "unat (u div B * B) \<le> unat u" by simp
  then have nl: "\<not> u < u div B * B" by (simp add: word_less_nat_alt)
  have sum: "u div B * B + u mod B = u" by (rule div_mult_mod_eq)
  have "ParseUint_loop [digits ! k] b (u div B) = (u, None)"
    using kb cut nl by (simp add: digit_val_digits(1) [OF k10] Let_def ofk sum B_def [symmetric])
  then show ?thesis by (simp only: k_def B_def r [unfolded B_def])
qed

lemma ParseUint_loop_formatBits:
  assumes "2 \<le> b" and "b \<le> 10"
  shows "ParseUint_loop (formatBits_loop u (of_nat b) []) b 0 = (u, None)
       \<and> formatBits_loop u (of_nat b) [] \<noteq> []
       \<and> hd (formatBits_loop u (of_nat b) []) \<noteq> CHR ''-''
       \<and> hd (formatBits_loop u (of_nat b) []) \<noteq> CHR ''+''"
proof (induction "unat u" arbitrary: u rule: less_induct)
  case less
  define B :: uint64 where "B = of_nat b"
  have uB: "unat B = b" using assms(2) by (simp add: B_def unat_of_nat)
  have B2: "2 \<le> B" using assms(1) by (simp add: word_le_nat_alt uB)
  show ?case
  proof (cases "B \<le> u")
    case False
    then have "unat u < b" by (simp add: word_le_nat_alt uB)
    then have k10: "unat u < 10" using assms(2) by simp
    have "unat (u div B) = 0" using \<open>unat u < b\<close> by (simp add: unat_div uB)
    then have d0: "u div B = 0" by (simp only: unsigned_eq_0_iff)
    have f: "formatBits_loop u B [] = [digits ! unat u]" using False by (rule formatBits_loop_last)
    have "ParseUint_loop [digits ! unat u] b 0 = (u, None)"
      using ParseUint_digit [OF assms, of u] by (simp add: B_def [symmetric] d0)
    then show ?thesis
      using digit_val_digits(2,3) [OF k10] by (simp add: B_def [symmetric] f)
  next
    case True
    have f: "formatBits_loop u B [] = formatBits_loop (u div B) B [] @ [digits ! unat (u - u div B * B)]"
      using B2 True by (rule formatBits_loop_rec)
    have "unat (u div B) = unat u div b" by (simp add: unat_div uB)
    moreover have "0 < unat u" using True assms(1) by (simp add: word_le_nat_alt uB)
    ultimately have "unat (u div B) < unat u" using assms(1) by simp
    note ih = less.hyps [OF this, unfolded B_def [symmetric]]
    have "ParseUint_loop [digits ! unat (u - u div B * B)] b (u div B) = (u, None)"
      using ParseUint_digit [OF assms, of u] by (simp add: B_def)
    then show ?thesis
      using ih by (simp add: B_def [symmetric] f ParseUint_loop_snoc del: ParseUint_loop.simps)
  qed
qed

lemma nonneg_below_cutoff:
  assumes "\<not> x <s 0" shows "\<not> 2 ^ 63 \<le> (x :: int64)"
proof -
  have "0 \<le> sint x" using assms by (simp add: word_sless_alt)
  then have "sint x = uint x" by (rule sint_nonneg_uint)
  moreover have "sint x < 2 ^ 63" using sint_lt [of x] by simp
  ultimately have "uint x < 2 ^ 63" by simp
  then show ?thesis by (simp add: word_le_def)
qed

lemma neg_within_cutoff:
  assumes "x <s 0" shows "\<not> 2 ^ 63 < - (x :: int64)"
proof -
  have n: "sint x < 0" using assms by (simp add: word_sless_alt)
  have "uint x \<ge> 2 ^ 63"
  proof (rule ccontr)
    assume "\<not> 2 ^ 63 \<le> uint x"
    then have "uint x < 2 ^ 63" by simp
    then have "sint x = uint x" by (rule sint_eq_uint_small)
    then show False using n by simp
  qed
  moreover have "uint x < 2 ^ 64" using uint_lt2p [of x] by simp
  moreover have "uint (- x) = (- uint x) mod 2 ^ 64" by (simp add: uint_word_ariths)
  ultimately have "uint (- x) = 2 ^ 64 - uint x"
    by (simp add: zmod_zminus1_eq_if)
  then have "uint (- x) \<le> 2 ^ 63" using \<open>uint x \<ge> 2 ^ 63\<close> by simp
  then show ?thesis by (simp add: word_less_def)
qed

lemma ParseInt_FormatInt:
  assumes "2 \<le> b" and "b \<le> 10"
  shows "ParseInt (FormatInt x b) b = (x, None)"
proof (cases "x <s 0")
  case True
  note p = ParseUint_loop_formatBits [OF assms, of "- x"]
  have f: "FormatInt x b = CHR ''-'' # formatBits_loop (- x) (of_nat b) []"
    using True by (simp add: FormatInt_def Let_def)
  have u: "ParseUint (formatBits_loop (- x) (of_nat b) []) b = (- x, None)"
    using p assms by (simp add: ParseUint_def)
  show ?thesis
    using True neg_within_cutoff [OF True] by (simp add: f ParseInt_def u)
next
  case False
  note p = ParseUint_loop_formatBits [OF assms, of x]
  have f: "FormatInt x b = formatBits_loop x (of_nat b) []"
    using False by (simp add: FormatInt_def Let_def)
  have u: "ParseUint (formatBits_loop x (of_nat b) []) b = (x, None)"
    using p assms by (simp add: ParseUint_def)
  show ?thesis
    using False nonneg_below_cutoff [OF False] p by (simp add: f ParseInt_def u)
qed

lemma String_roundtrip: "ParseInt (String f) 10 = (f, None)"
  unfolding String_def by (rule ParseInt_FormatInt) simp_all

lemma Base2_roundtrip: "ParseInt (Base2 f) 2 = (f, None)"
  unfolding Base2_def by (rule ParseInt_FormatInt) simp_all

lemma JSON_roundtrip: "UnmarshalJSON g (fst (MarshalJSON f)) = (f, None)"
  by (simp add: UnmarshalJSON_def MarshalJSON_def String_roundtrip)

section \<open>Encode and decode\<close>

text \<open>
  Claim C1, as stated, fails for base32 and base58: the encoders' loop \<open>for f > 0\<close> writes
  nothing for a negative identifier, and the parsers read the empty string as 0.
\<close>

theorem Base32_negative_counterexample:
  "Base32 (- 1) = [] \<and> ParseBase32 (Base32 (- 1)) = (0, None)
   \<and> ParseBase32 (Base32 (- 1)) \<noteq> (- 1, None)
   \<and> Base58 (- 1) = [] \<and> ParseBase58 (Base58 (- 1)) = (0, None)
   \<and> ParseBase58 (Base58 (- 1)) \<noteq> (- 1, None)"
proof -
  have n: "\<not> 0 <s (- 1 :: int64)" by (simp add: word_sless_alt)
  have "Base32 (- 1) = []" "Base58 (- 1) = []"
    using n by (simp_all add: Base32_def Base58_def base32_loop_nonpos base58_loop_nonpos)
  then show ?thesis by (simp add: ParseBase32_def ParseBase58_def)
qed

text \<open>
  Claim C1, amended. For every identifier \<open>x\<close> that is not negative, \<open>ParseBase32\<close> of
  \<open>Base32\<close> and \<open>ParseBase58\<close> of \<open>Base58\<close> give \<open>x\<close> back. For every identifier \<open>y\<close>, negative
  or not, \<open>ParseBase64\<close> of \<open>Base64\<close> gives \<open>y\<close> back, the decimal form \<open>String\<close> is parsed back
  to \<open>y\<close> by \<open>strconv.ParseInt\<close> in base 10 (as \<open>UnmarshalJSON\<close> does), and the binary form
  \<open>Base2\<close> is parsed back to \<open>y\<close> by \<open>strconv.ParseInt\<close> in base 2. No parser reports an error.
\<close>

theorem encode_decode_roundtrip:
  assumes "0 \<le>s x"
  shows "ParseBase32 (Base32 x) = (x, None) \<and> ParseBase58 (Base58 x) = (x, None)
       \<and> ParseBase64 (Base64 y) = (y, None)
       \<and> ParseInt (String y) 10 = (y, None) \<and> UnmarshalJSON z (String y) = (y, None)
       \<and> ParseInt (Base2 y) 2 = (y, None)"
  using Base32_roundtrip [OF assms] Base58_roundtrip [OF assms] Base64_roundtrip [of y]
    String_roundtrip [of y] Base2_roundtrip [of y]
  by (simp add: UnmarshalJSON_def)

theorem encode_decode_roundtrip_witness:
  "(0 :: int64) \<le>s 1000
   \<and> ParseBase32 (Base32 1000) = (1000, None) \<and> ParseBase58 (Base58 1000) = (1000, None)
   \<and> ParseBase64 (Base64 (- 5)) = (- 5, None)
   \<and> ParseInt (String (- 5)) 10 = (- 5, None) \<and> UnmarshalJSON 0 (String (- 5)) = (- 5, None)
   \<and> ParseInt (Base2 (- 5)) 2 = (- 5, None)"
proof -
  have a: "(0 :: int64) \<le>s 1000" by (simp add: word_sle_eq)
  show ?thesis
    using a encode_decode_roundtrip [OF a, of "- 5" 0] by blast
qed

end
